theory Spec2Isabelle
  imports Main
begin

section \<open>Python strings\<close>

text \<open>
  A Python \<open>str\<close> is a sequence of Unicode code points; it is modelled as a list of
  natural numbers, so that \<open>length\<close> is Python's \<open>len\<close>. ASCII literals are written
  with \<open>ascii\<close>, other literals as their code points.
\<close>

type_synonym pystr = "nat list"

definition ascii :: "string \<Rightarrow> pystr" where
  "ascii s = map of_char s"

text \<open>
  \<open>str.isspace\<close> for one code point. The regular expression class \<open>\s\<close> of a \<open>str\<close>
  pattern and \<open>str.strip()\<close> use the same table.
\<close>

definition isspace :: "nat \<Rightarrow> bool" where
  "isspace c \<longleftrightarrow>
     (9 \<le> c \<and> c \<le> 13) \<or> (28 \<le> c \<and> c \<le> 32) \<or> c = 133 \<or> c = 160 \<or> c = 5760 \<or>
     (8192 \<le> c \<and> c \<le> 8202) \<or> c = 8232 \<or> c = 8233 \<or> c = 8239 \<or> c = 8287 \<or> c = 12288"

text \<open>\<open>text.strip()\<close>: whitespace is removed at both ends.\<close>

definition strip :: "pystr \<Rightarrow> pystr" where
  "strip s = rev (dropWhile isspace (rev (dropWhile isspace s)))"

section \<open>Text normalizer: \<open>CompleteWebsiteScraper.clean_text\<close>\<close>

text \<open>
  The class \<open>[^\w\s.,:;!?()\-\n]\<close> of the first substitution: a code point survives
  when it is a word character, whitespace, or one of the listed punctuation marks.
  The Unicode table behind \<open>\w\<close> is a parameter, \<open>isword\<close>.
\<close>

definition allowed :: "(nat \<Rightarrow> bool) \<Rightarrow> nat \<Rightarrow> bool" where
  "allowed isword c \<longleftrightarrow> isword c \<or> isspace c \<or> c \<in> set (ascii ''.,:;!?()-'') \<or> c = 10"

text \<open>\<open>re.sub(r'\s+', ' ', text)\<close>: every maximal run of whitespace becomes one space.\<close>

function sub_spaces :: "pystr \<Rightarrow> pystr" where
  "sub_spaces [] = []"
| "sub_spaces (c # cs) =
     (if isspace c then 32 # sub_spaces (dropWhile isspace cs) else c # sub_spaces cs)"
  by pat_completeness auto
termination
  by (relation "measure length") (auto simp: le_imp_less_Suc length_dropWhile_le)

text \<open>
  \<open>re.sub(r'-\s+', '', text)\<close>: scanning from the left, a hyphen that is followed by
  whitespace is deleted together with the whole run of whitespace after it.
\<close>

function sub_hyphen_spaces :: "pystr \<Rightarrow> pystr" where
  "sub_hyphen_spaces [] = []"
| "sub_hyphen_spaces (c # cs) =
     (if c = 45 \<and> (case cs of [] \<Rightarrow> False | d # _ \<Rightarrow> isspace d)
      then sub_hyphen_spaces (dropWhile isspace cs)
      else c # sub_hyphen_spaces cs)"
  by pat_completeness auto
termination
  by (relation "measure length") (auto simp: le_imp_less_Suc length_dropWhile_le)

definition clean_text :: "(nat \<Rightarrow> bool) \<Rightarrow> pystr \<Rightarrow> pystr" where
  "clean_text isword text =
     strip (sub_hyphen_spaces (sub_spaces (filter (allowed isword) text)))"

text \<open>
  The shape of a normalized text, used to state what \<open>clean_text\<close> returns:
  \<open>nows\<close> holds when a text does not start with whitespace, \<open>single\<close> when every
  whitespace code point is one space not followed by whitespace, and \<open>tidy\<close> when in
  addition no hyphen is followed by whitespace.
\<close>

definition nows :: "pystr \<Rightarrow> bool" where
  "nows xs \<longleftrightarrow> (case xs of [] \<Rightarrow> True | d # _ \<Rightarrow> \<not> isspace d)"

fun single :: "pystr \<Rightarrow> bool" where
  "single [] = True"
| "single (c # cs) = ((isspace c \<longrightarrow> c = 32 \<and> nows cs) \<and> single cs)"

fun tidy :: "pystr \<Rightarrow> bool" where
  "tidy [] = True"
| "tidy (c # cs) = ((isspace c \<longrightarrow> c = 32 \<and> nows cs) \<and> (c = 45 \<longrightarrow> nows cs) \<and> tidy cs)"

section \<open>String and container helpers\<close>

text \<open>\<open>s.endswith(suf)\<close>, \<open>s.startswith(pre)\<close> and \<open>sub in s\<close> on strings.\<close>

definition endswith :: "pystr \<Rightarrow> pystr \<Rightarrow> bool" where
  "endswith s suf \<longleftrightarrow> length suf \<le> length s \<and> drop (length s - length suf) s = suf"

definition startswith :: "pystr \<Rightarrow> pystr \<Rightarrow> bool" where
  "startswith s pre \<longleftrightarrow> take (length pre) s = pre"

fun contains :: "pystr \<Rightarrow> pystr \<Rightarrow> bool" where
  "contains sub [] = (sub = [])"
| "contains sub (c # cs) = (take (length sub) (c # cs) = sub \<or> contains sub cs)"

text \<open>
  \<open>s.split(d)\<close> for a separator \<open>d\<close> of one code point: the result is never empty, so
  that \<open>s.split(d)[-1]\<close> is its last element.
\<close>

fun split_char :: "nat \<Rightarrow> pystr \<Rightarrow> pystr list" where
  "split_char d [] = [[]]"
| "split_char d (c # cs) =
     (if c = d then [] # split_char d cs
      else (case split_char d cs of [] \<Rightarrow> [[c]] | x # xs \<Rightarrow> (c # x) # xs))"

text \<open>\<open>sep.join(parts)\<close> for a separator of one code point.\<close>

fun join_char :: "nat \<Rightarrow> pystr list \<Rightarrow> pystr" where
  "join_char d [] = []"
| "join_char d [x] = x"
| "join_char d (x # y # ys) = x @ d # join_char d (y # ys)"

text \<open>
  A Python \<open>set\<close> is modelled as a list without repetitions, in insertion order:
  \<open>s.add(x)\<close> is \<open>set_add\<close>, \<open>x in s\<close> is membership in \<open>set s\<close> and \<open>len(s)\<close> is
  the length. The order in which Python iterates over a set is not the insertion
  order; it is a parameter of the environment (\<open>set_order\<close> below).
\<close>

type_synonym 'a pyset = "'a list"

definition set_add :: "'a \<Rightarrow> 'a pyset \<Rightarrow> 'a pyset" where
  "set_add x s = (if x \<in> set s then s else s @ [x])"

section \<open>Parsed HTML\<close>

text \<open>
  The tree that \<open>BeautifulSoup(response.text, 'html.parser')\<close> builds: strings, and
  elements with a tag name, an attribute dictionary and children. Every string has the
  class the parser gave it: \<open>NavigableString\<close> for ordinary text, \<open>CData\<close>, \<open>Comment\<close>,
  the classes \<open>Script\<close>, \<open>Stylesheet\<close>, \<open>TemplateString\<close>, \<open>RubyTextString\<close> and
  \<open>RubyParenthesisString\<close> that the parser uses for text inside \<open>script\<close>, \<open>style\<close>,
  \<open>template\<close>, \<open>rt\<close> and \<open>rp\<close> elements, and \<open>Declaration\<close> for doctypes,
  declarations and processing instructions. A soup is the list of the children of the
  document object.
\<close>

datatype string_class =
    NavigableString
  | CData
  | Comment
  | Script
  | Stylesheet
  | TemplateString
  | RubyTextString
  | RubyParenthesisString
  | Declaration

datatype node =
    Str string_class pystr
  | Element pystr "(pystr \<times> pystr) list" "node list"

abbreviation Text :: "pystr \<Rightarrow> node" where
  "Text t \<equiv> Str NavigableString t"

type_synonym soup = "node list"

text \<open>All nodes below a node, itself included, in document order.\<close>

fun descendants :: "node \<Rightarrow> node list" where
  "descendants (Str k t) = [Str k t]"
| "descendants (Element n a cs) = Element n a cs # concat (map descendants cs)"

definition soup_nodes :: "soup \<Rightarrow> node list" where
  "soup_nodes sp = concat (map descendants sp)"

fun tag_name :: "node \<Rightarrow> pystr option" where
  "tag_name (Element n a cs) = Some n"
| "tag_name _ = None"

fun attrs :: "node \<Rightarrow> (pystr \<times> pystr) list" where
  "attrs (Element n a cs) = a"
| "attrs _ = []"

fun contents :: "node \<Rightarrow> node list" where
  "contents (Element n a cs) = cs"
| "contents _ = []"

text \<open>\<open>tag.get(key)\<close>: the attribute's value, or \<open>None\<close>.\<close>

definition attr_get :: "node \<Rightarrow> pystr \<Rightarrow> pystr option" where
  "attr_get nd key = map_of (attrs nd) key"

text \<open>\<open>soup.find_all(name)\<close>: the elements with that tag name, in document order.\<close>

definition find_all :: "soup \<Rightarrow> pystr \<Rightarrow> node list" where
  "find_all sp name = filter (\<lambda>nd. tag_name nd = Some name) (soup_nodes sp)"

text \<open>\<open>soup.find_all(name, key=True)\<close>: those of them that carry the attribute.\<close>

definition find_all_with :: "soup \<Rightarrow> pystr \<Rightarrow> pystr \<Rightarrow> node list" where
  "find_all_with sp name key = filter (\<lambda>nd. attr_get nd key \<noteq> None) (find_all sp name)"

section \<open>The scraper and its environment\<close>

text \<open>
  The constructor arguments of \<open>CompleteWebsiteScraper\<close>; \<open>ocr_enabled\<close> is the value
  the field has once \<open>__init__\<close> has probed Tesseract.
\<close>

record config =
  root_url :: pystr
  max_pages :: int
  ocr_enabled :: bool
  max_file_size :: int
  download_documents :: bool

text \<open>
  Python exceptions as values. \<open>Other\<close> stands for an exception raised inside a library
  (a network failure, an unreadable image, ...).
\<close>

datatype exn =
    NameError pystr
  | KeyError pystr
  | ValueError
  | IndexError
  | AttributeError
  | HTTPError
  | Other pystr

text \<open>
  What \<open>session.get\<close> returns when it does not raise: whether \<open>raise_for_status()\<close>
  passes, the headers, the decoded text, and the body as it arrives on the wire (the
  bytes received, and the error that ends the transfer when there is one).
\<close>

record response =
  status_ok :: bool
  headers :: "pystr \<rightharpoonup> pystr"
  resp_text :: pystr
  body :: "nat list \<times> exn option"

text \<open>
  What the code takes from outside the repository: the Unicode table of \<open>\w\<close>,
  \<open>str.lower\<close>, \<open>int\<close> on a string (\<open>None\<close> is \<open>ValueError\<close>), \<open>urljoin\<close> and
  \<open>urlparse(url).netloc\<close> of \<open>urllib.parse\<close> (both raise \<open>ValueError\<close> on some
  malformed URLs, for instance on \<open>http://[\<close>), \<open>os.path.join\<close> and
  \<open>os.path.basename\<close>, the iteration order of a set, the network (the answer to the
  n-th request of the run), the HTML parser, and the OCR call
  \<open>pytesseract.image_to_string(Image.open(path), lang='rus')\<close> on the bytes of the file
  (its first argument is the number of requests made so far, so that two calls may
  differ). \<open>pdf_text\<close> is what a PDF library would return for the bytes of a document;
  the code reaches it only through a global name, see \<open>lookup_global\<close>.
\<close>

record env =
  isword :: "nat \<Rightarrow> bool"
  lower :: "pystr \<Rightarrow> pystr"
  parse_int :: "pystr \<Rightarrow> int option"
  urljoin :: "pystr \<Rightarrow> pystr \<Rightarrow> exn + pystr"
  netloc :: "pystr \<Rightarrow> exn + pystr"
  path_join :: "pystr \<Rightarrow> pystr \<Rightarrow> pystr"
  basename :: "pystr \<Rightarrow> pystr"
  set_order :: "pystr list \<Rightarrow> pystr list"
  http_get :: "nat \<Rightarrow> pystr \<Rightarrow> exn + response"
  html_parser :: "pystr \<Rightarrow> soup"
  image_to_string :: "nat \<Rightarrow> nat list \<Rightarrow> exn + pystr"
  pdf_text :: "nat list \<Rightarrow> exn + pystr"

section \<open>Link classifier: \<open>is_valid_url\<close> and \<open>extract_links\<close>\<close>

text \<open>
  \<open>bool(parsed.netloc) and parsed.netloc == urlparse(self.root_url).netloc\<close>: the
  root URL is parsed only when the URL has a network location, and either call of
  \<open>urlparse\<close> may raise.
\<close>

definition is_valid_url :: "env \<Rightarrow> config \<Rightarrow> pystr \<Rightarrow> exn + bool" where
  "is_valid_url e c u =
     (case netloc e u of
        Inl x \<Rightarrow> Inl x
      | Inr n \<Rightarrow>
          if n = [] then Inr False
          else (case netloc e (root_url c) of Inl x \<Rightarrow> Inl x | Inr r \<Rightarrow> Inr (n = r)))"

text \<open>The dictionary \<open>links\<close> of \<open>extract_links\<close>, with its five sets.\<close>

record links =
  internal :: "pystr pyset"
  external :: "pystr pyset"
  files_pdf :: "pystr pyset"
  files_images :: "pystr pyset"
  files_other :: "pystr pyset"

definition empty_links :: links where
  "empty_links = \<lparr>internal = [], external = [], files_pdf = [], files_images = [],
     files_other = []\<rparr>"

definition image_exts :: "pystr list" where
  "image_exts = [ascii ''.jpg'', ascii ''.jpeg'', ascii ''.png'', ascii ''.gif'', ascii ''.bmp'']"

text \<open>
  The body of the loop over the anchors, for one \<open>href\<close>. An exception of \<open>urljoin\<close>
  or \<open>is_valid_url\<close> is not caught here.
\<close>

definition classify_link :: "env \<Rightarrow> config \<Rightarrow> pystr \<Rightarrow> links \<Rightarrow> pystr \<Rightarrow> exn + links" where
  "classify_link e c base_url ls href =
     (case urljoin e base_url href of
        Inl x \<Rightarrow> Inl x
      | Inr absolute_url \<Rightarrow>
          (case is_valid_url e c absolute_url of
             Inl x \<Rightarrow> Inl x
           | Inr valid \<Rightarrow>
               if \<not> valid
               then Inr (ls\<lparr>external := set_add absolute_url (external ls)\<rparr>)
               else if endswith (lower e href) (ascii ''.pdf'')
               then Inr (ls\<lparr>files_pdf := set_add absolute_url (files_pdf ls)\<rparr>)
               else if list_ex (\<lambda>ext. endswith (lower e href) ext) image_exts
               then Inr (ls\<lparr>files_images := set_add absolute_url (files_images ls)\<rparr>)
               else if 46 \<in> set (last (split_char 47 href))
               then Inr (ls\<lparr>files_other := set_add absolute_url (files_other ls)\<rparr>)
               else Inr (ls\<lparr>internal := set_add absolute_url (internal ls)\<rparr>)))"

text \<open>The \<open>href\<close> values of \<open>soup.find_all('a', href=True)\<close>, in document order.\<close>

definition anchor_hrefs :: "soup \<Rightarrow> pystr list" where
  "anchor_hrefs sp =
     map (\<lambda>a. the (attr_get a (ascii ''href''))) (find_all_with sp (ascii ''a'') (ascii ''href''))"

text \<open>The loop: it stops at the first anchor for which the body raises.\<close>

fun classify_links :: "env \<Rightarrow> config \<Rightarrow> pystr \<Rightarrow> links \<Rightarrow> pystr list \<Rightarrow> exn + links" where
  "classify_links e c base_url ls [] = Inr ls"
| "classify_links e c base_url ls (href # rest) =
     (case classify_link e c base_url ls href of
        Inl x \<Rightarrow> Inl x
      | Inr ls' \<Rightarrow> classify_links e c base_url ls' rest)"

definition extract_links :: "env \<Rightarrow> config \<Rightarrow> soup \<Rightarrow> pystr \<Rightarrow> exn + links" where
  "extract_links e c sp base_url = classify_links e c base_url empty_links (anchor_hrefs sp)"

text \<open>
  The five buckets by name, and what the loop body does for an \<open>href\<close>: the exception
  it raises, or the resolved URL and the branch taken. Both are used to state where a
  URL ends up.
\<close>

datatype bucket = Internal | External | Files_pdf | Files_images | Files_other

fun bucket_urls :: "bucket \<Rightarrow> links \<Rightarrow> pystr pyset" where
  "bucket_urls Internal ls = internal ls"
| "bucket_urls External ls = external ls"
| "bucket_urls Files_pdf ls = files_pdf ls"
| "bucket_urls Files_images ls = files_images ls"
| "bucket_urls Files_other ls = files_other ls"

definition bucket_of :: "env \<Rightarrow> config \<Rightarrow> pystr \<Rightarrow> pystr \<Rightarrow> exn + pystr \<times> bucket" where
  "bucket_of e c base_url href =
     (case urljoin e base_url href of
        Inl x \<Rightarrow> Inl x
      | Inr absolute_url \<Rightarrow>
          (case is_valid_url e c absolute_url of
             Inl x \<Rightarrow> Inl x
           | Inr valid \<Rightarrow>
               if \<not> valid then Inr (absolute_url, External)
               else if endswith (lower e href) (ascii ''.pdf'') then Inr (absolute_url, Files_pdf)
               else if list_ex (\<lambda>ext. endswith (lower e href) ext) image_exts
               then Inr (absolute_url, Files_images)
               else if 46 \<in> set (last (split_char 47 href)) then Inr (absolute_url, Files_other)
               else Inr (absolute_url, Internal)))"

section \<open>The state of a crawl\<close>

text \<open>The dictionaries appended to \<open>img_texts\<close>, \<open>files_content\<close> and \<open>self.data\<close>.\<close>

record image_entry =
  image_url :: pystr
  alt_text :: pystr
  ocr_text :: pystr

record file_entry =
  file_type :: pystr
  file_url :: pystr
  content :: pystr
  local_path :: "pystr option"

record page_metadata =
  title :: "pystr option"
  description :: "pystr option"
  meta_keywords :: "pystr option"
  og :: "pystr \<rightharpoonup> pystr"

record page =
  page_url :: pystr
  page_text :: pystr
  images :: "image_entry list"
  metadata :: page_metadata
  links_internal :: "pystr list"
  links_external :: "pystr list"
  links_pdf :: "pystr list"
  links_images :: "pystr list"
  links_other :: "pystr list"
  files_content :: "file_entry list"

text \<open>
  The mutable part of the scraper and of the world around it: the set
  \<open>visited_urls\<close>, the list \<open>data\<close>, the calls of \<open>session.get\<close> made so far (each
  with the place in the code that made it) and the files on disk.
\<close>

datatype site = Page_fetch | Image_fetch | Pdf_fetch | Download_fetch

record state =
  visited_urls :: "pystr pyset"
  data :: "page list"
  requests :: "(site \<times> pystr) list"
  files :: "pystr \<rightharpoonup> nat list"

definition init_state :: state where
  "init_state = \<lparr>visited_urls = [], data = [], requests = [], files = Map.empty\<rparr>"

text \<open>
  \<open>self.session.get(url, ...)\<close>: the call is recorded and the network answers. The
  file-system calls of the code (\<open>open\<close>, \<open>write\<close>, \<open>os.remove\<close>) are taken to succeed.
\<close>

definition session_get :: "env \<Rightarrow> site \<Rightarrow> pystr \<Rightarrow> state \<Rightarrow> state \<times> (exn + response)" where
  "session_get e k u s =
     (s\<lparr>requests := requests s @ [(k, u)]\<rparr>, http_get e (length (requests s)) u)"

text \<open>\<open>response.headers.get(key, '')\<close>.\<close>

definition header_get :: "response \<Rightarrow> pystr \<Rightarrow> pystr" where
  "header_get resp key = (case headers resp key of None \<Rightarrow> [] | Some v \<Rightarrow> v)"

text \<open>
  \<open>int(response.headers.get('content-length', 0))\<close>: 0 when the header is absent,
  \<open>None\<close> when \<open>int\<close> raises \<open>ValueError\<close>.
\<close>

definition content_length :: "env \<Rightarrow> response \<Rightarrow> int option" where
  "content_length e resp =
     (case headers resp (ascii ''content-length'') of None \<Rightarrow> Some 0 | Some v \<Rightarrow> parse_int e v)"

text \<open>\<open>str(n)\<close> for a length.\<close>

function str_nat :: "nat \<Rightarrow> pystr" where
  "str_nat n = (if n < 10 then [48 + n] else str_nat (n div 10) @ [48 + n mod 10])"
  by pat_completeness auto
termination
  by (relation "measure id") auto

declare str_nat.simps [simp del]

section \<open>\<open>download_file\<close>\<close>

text \<open>
  The file is created by \<open>open\<close> and receives the chunks that arrive; when the transfer
  breaks, the exception handler returns \<open>None\<close> and the file stays as it is.
\<close>

definition download_file :: "env \<Rightarrow> state \<Rightarrow> pystr \<Rightarrow> pystr \<Rightarrow> state \<times> pystr option" where
  "download_file e s u ftype =
     (case session_get e Download_fetch u s of (s1, r) \<Rightarrow>
      (case r of
         Inl x \<Rightarrow> (s1, None)
       | Inr resp \<Rightarrow>
           if \<not> status_ok resp then (s1, None)
           else
             let filename = path_join e (ascii ''downloaded_documents'')
                   (ascii ''document_'' @ str_nat (length (visited_urls s1)) @ ascii ''_'' @
                    ftype @ ascii ''.'' @ ftype);
                 s2 = s1\<lparr>files := (files s1)(filename \<mapsto> fst (body resp))\<rparr>
             in (case snd (body resp) of
                   None \<Rightarrow> (s2, Some filename)
                 | Some x \<Rightarrow> (s2, None))))"

section \<open>\<open>extract_text_from_image\<close>\<close>

text \<open>The messages the function returns, as code points.\<close>

definition msg_ocr_disabled :: pystr where
  \<comment> \<open>OCR is switched off\<close>
  "msg_ocr_disabled =
     [79, 67, 82, 32,
      1086, 1090, 1082, 1083, 1102, 1095, 1077, 1085]"

definition msg_too_big :: pystr where
  \<comment> \<open>the image is too large\<close>
  "msg_too_big =
     [1048, 1079, 1086, 1073, 1088, 1072, 1078, 1077, 1085, 1080, 1077, 32,
      1089, 1083, 1080, 1096, 1082, 1086, 1084, 32,
      1073, 1086, 1083, 1100, 1096, 1086, 1077]"

definition msg_not_image :: pystr where
  \<comment> \<open>the URL does not lead to an image\<close>
  "msg_not_image =
     [85, 82, 76, 32,
      1085, 1077, 32,
      1074, 1077, 1076, 1077, 1090, 32,
      1085, 1072, 32,
      1080, 1079, 1086, 1073, 1088, 1072, 1078, 1077, 1085, 1080, 1077]"

definition msg_unrecognized :: pystr where
  \<comment> \<open>the text could not be recognized\<close>
  "msg_unrecognized =
     [1053, 1077, 32,
      1091, 1076, 1072, 1083, 1086, 1089, 1100, 32,
      1088, 1072, 1089, 1087, 1086, 1079, 1085, 1072, 1090, 1100, 32,
      1090, 1077, 1082, 1089, 1090]"

definition msg_image_error :: pystr where
  \<comment> \<open>error while processing the image\<close>
  "msg_image_error =
     [1054, 1096, 1080, 1073, 1082, 1072, 32,
      1086, 1073, 1088, 1072, 1073, 1086, 1090, 1082, 1080, 32,
      1080, 1079, 1086, 1073, 1088, 1072, 1078, 1077, 1085, 1080, 1103]"

definition extract_text_from_image :: "env \<Rightarrow> config \<Rightarrow> state \<Rightarrow> pystr \<Rightarrow> state \<times> pystr" where
  "extract_text_from_image e c s img_url =
     (if \<not> ocr_enabled c then (s, msg_ocr_disabled)
      else
        (case session_get e Image_fetch img_url s of (s1, r) \<Rightarrow>
         (case r of
            Inl x \<Rightarrow> (s1, msg_image_error)
          | Inr resp \<Rightarrow>
              if \<not> status_ok resp then (s1, msg_image_error)
              else
                (case content_length e resp of
                   None \<Rightarrow> (s1, msg_image_error)
                 | Some n \<Rightarrow>
                     if n > max_file_size c then (s1, msg_too_big)
                     else if \<not> contains (ascii ''image'') (header_get resp (ascii ''content-type''))
                     then (s1, msg_not_image)
                     else
                       let temp_img_path = path_join e (ascii ''temp_images'') (basename e img_url);
                           s2 = s1\<lparr>files := (files s1)(temp_img_path \<mapsto> fst (body resp))\<rparr>
                       in (case snd (body resp) of
                             Some x \<Rightarrow> (s2, msg_image_error)
                           | None \<Rightarrow>
                               (case image_to_string e (length (requests s2)) (fst (body resp)) of
                                  Inl x \<Rightarrow> (s2, msg_image_error)
                                | Inr txt \<Rightarrow>
                                    let s3 = s2\<lparr>files := (files s2)(temp_img_path := None)\<rparr>
                                    in (s3, if strip txt \<noteq> [] then clean_text (isword e) txt
                                            else msg_unrecognized)))))))"

section \<open>\<open>extract_from_pdf\<close>\<close>

text \<open>
  The names bound at module level in \<open>parses.py\<close>: its imports, the class and the
  function \<open>start\<close>. A global name that is neither in this list nor a builtin raises
  \<open>NameError\<close> when the code that uses it runs.
\<close>

definition module_globals :: "pystr list" where
  "module_globals = map ascii
     [''os'', ''re'', ''json'', ''requests'', ''pytesseract'', ''BytesIO'', ''urljoin'',
      ''urlparse'', ''BeautifulSoup'', ''Image'', ''shutil'', ''List'', ''Dict'', ''Set'',
      ''Optional'', ''Union'', ''CompleteWebsiteScraper'', ''start'']"

definition lookup_global :: "pystr \<Rightarrow> 'a \<Rightarrow> exn + 'a" where
  "lookup_global name v = (if name \<in> set module_globals then Inr v else Inl (NameError name))"

text \<open>The dictionary \<open>{'text': ..., 'local_path': ...}\<close> that \<open>extract_from_pdf\<close> returns.\<close>

record pdf_result =
  pdf_result_text :: "pystr option"
  pdf_result_local_path :: "pystr option"

definition pdf_failure :: pdf_result where
  "pdf_failure = \<lparr>pdf_result_text = None, pdf_result_local_path = None\<rparr>"

definition extract_from_pdf :: "env \<Rightarrow> config \<Rightarrow> state \<Rightarrow> pystr \<Rightarrow> state \<times> pdf_result" where
  "extract_from_pdf e c s pdf_url =
     (case session_get e Pdf_fetch pdf_url s of (s1, r) \<Rightarrow>
      (case r of
         Inl x \<Rightarrow> (s1, pdf_failure)
       | Inr resp \<Rightarrow>
           (case content_length e resp of
              None \<Rightarrow> (s1, pdf_failure)
            | Some n \<Rightarrow>
                if n > max_file_size c then (s1, pdf_failure)
                else
                  (case (if download_documents c then download_file e s1 pdf_url (ascii ''pdf'')
                         else (s1, None)) of
                     (s2, lpath) \<Rightarrow>
                       (case snd (body resp) of
                          Some x \<Rightarrow> (s2, pdf_failure)
                        | None \<Rightarrow>
                            (case lookup_global (ascii ''pdf_extract_text'') (pdf_text e) of
                               Inl x \<Rightarrow> (s2, pdf_failure)
                             | Inr pdf_extract_text \<Rightarrow>
                                 (case pdf_extract_text (fst (body resp)) of
                                    Inl x \<Rightarrow> (s2, pdf_failure)
                                  | Inr txt \<Rightarrow>
                                      (s2, \<lparr>pdf_result_text = Some (clean_text (isword e) txt),
                                            pdf_result_local_path = lpath\<rparr>))))))))"

section \<open>Page extraction\<close>

text \<open>
  \<open>for element in soup(['script', 'style', 'iframe', 'noscript']): element.decompose()\<close>:
  every element with one of these names is cut out of the tree, with all that is
  below it.
\<close>

definition removed_tags :: "pystr list" where
  "removed_tags = [ascii ''script'', ascii ''style'', ascii ''iframe'', ascii ''noscript'']"

fun decompose :: "pystr list \<Rightarrow> node \<Rightarrow> node list" where
  "decompose tags (Str k t) = [Str k t]"
| "decompose tags (Element n a cs) =
     (if n \<in> set tags then [] else [Element n a (concat (map (decompose tags) cs))])"

definition decompose_all :: "pystr list \<Rightarrow> soup \<Rightarrow> soup" where
  "decompose_all tags sp = concat (map (decompose tags) sp)"

text \<open>
  \<open>soup.get_text(sep, strip=True)\<close>, called on the document: the strings whose class
  is exactly \<open>NavigableString\<close> or \<open>CData\<close>, in document order, each stripped, the
  empty ones dropped, joined by the separator. Strings of the other classes, so
  comments and the text inside \<open>template\<close>, \<open>rt\<close> and \<open>rp\<close> elements, are skipped.
\<close>

definition interesting :: "string_class \<Rightarrow> bool" where
  "interesting k \<longleftrightarrow> k = NavigableString \<or> k = CData"

fun strings :: "node \<Rightarrow> pystr list" where
  "strings (Str k t) = (if interesting k then [t] else [])"
| "strings (Element n a cs) = concat (map strings cs)"

definition soup_strings :: "soup \<Rightarrow> pystr list" where
  "soup_strings sp = concat (map strings sp)"

definition get_text :: "nat \<Rightarrow> soup \<Rightarrow> pystr" where
  "get_text sep sp = join_char sep (filter (\<lambda>t. t \<noteq> []) (map strip (soup_strings sp)))"

text \<open>
  \<open>'\n'.join(line for line in soup.get_text('\n', strip=True).split('\n') if line.strip())\<close>
\<close>

definition main_text :: "soup \<Rightarrow> pystr" where
  "main_text sp =
     join_char 10 (filter (\<lambda>line. strip line \<noteq> []) (split_char 10 (get_text 10 sp)))"

text \<open>
  \<open>tag.string\<close>: the only child when it is a string, the \<open>string\<close> of the only child
  when it is an element, \<open>None\<close> otherwise.
\<close>

fun node_string :: "node \<Rightarrow> pystr option" where
  "node_string (Str k t) = Some t"
| "node_string (Element n a [c]) = node_string c"
| "node_string (Element n a cs) = None"

text \<open>\<open>soup.find(name)\<close> and \<open>soup.find('meta', attrs={'name': v})\<close>.\<close>

definition find_first :: "soup \<Rightarrow> pystr \<Rightarrow> node option" where
  "find_first sp name = (case find_all sp name of [] \<Rightarrow> None | nd # _ \<Rightarrow> Some nd)"

definition find_meta :: "soup \<Rightarrow> pystr \<Rightarrow> node option" where
  "find_meta sp v =
     (case filter (\<lambda>nd. attr_get nd (ascii ''name'') = Some v) (find_all sp (ascii ''meta'')) of
        [] \<Rightarrow> None
      | nd # _ \<Rightarrow> Some nd)"

text \<open>
  The loop over the OpenGraph tags: \<open>meta['content']\<close> raises \<open>KeyError\<close> when the
  attribute is missing; a later tag with the same property replaces an earlier one.
\<close>

fun og_tags :: "(pystr \<rightharpoonup> pystr) \<Rightarrow> node list \<Rightarrow> exn + (pystr \<rightharpoonup> pystr)" where
  "og_tags m [] = Inr m"
| "og_tags m (nd # nds) =
     (case attr_get nd (ascii ''content'') of
        None \<Rightarrow> Inl (KeyError (ascii ''content''))
      | Some v \<Rightarrow> og_tags (m(the (attr_get nd (ascii ''property'')) \<mapsto> v)) nds)"

definition extract_metadata :: "soup \<Rightarrow> exn + page_metadata" where
  "extract_metadata sp =
     (let t = (case find_first sp (ascii ''title'') of None \<Rightarrow> None | Some nd \<Rightarrow> node_string nd);
          d = (case find_meta sp (ascii ''description'') of
                 None \<Rightarrow> None | Some nd \<Rightarrow> attr_get nd (ascii ''content''));
          k = (case find_meta sp (ascii ''keywords'') of
                 None \<Rightarrow> None | Some nd \<Rightarrow> attr_get nd (ascii ''content''))
      in (case og_tags Map.empty
                 (filter (\<lambda>nd. case attr_get nd (ascii ''property'') of
                                 None \<Rightarrow> False
                               | Some p \<Rightarrow> p \<noteq> [] \<and> startswith p (ascii ''og:''))
                    (find_all sp (ascii ''meta''))) of
            Inl x \<Rightarrow> Inl x
          | Inr m \<Rightarrow> Inr \<lparr>title = t, description = d, meta_keywords = k, og = m\<rparr>))"

text \<open>
  The loop over \<open>soup.find_all('img', src=True)\<close>: OCR for the images whose resolved
  URL ends in \<open>.jpg\<close>, \<open>.jpeg\<close> or \<open>.png\<close>; an entry is appended when the text returned
  is not empty. When \<open>urljoin\<close> raises, the loop is left with the exception.
\<close>

definition ocr_exts :: "pystr list" where
  "ocr_exts = [ascii ''.jpg'', ascii ''.jpeg'', ascii ''.png'']"

fun ocr_images ::
  "env \<Rightarrow> config \<Rightarrow> pystr \<Rightarrow> state \<Rightarrow> node list \<Rightarrow> state \<times> (exn + image_entry list)" where
  "ocr_images e c u s [] = (s, Inr [])"
| "ocr_images e c u s (img # imgs) =
     (case urljoin e u (the (attr_get img (ascii ''src''))) of
        Inl x \<Rightarrow> (s, Inl x)
      | Inr img_url \<Rightarrow>
          if list_ex (\<lambda>ext. endswith (lower e img_url) ext) ocr_exts
          then
            (case extract_text_from_image e c s img_url of (s1, txt) \<Rightarrow>
             (case ocr_images e c u s1 imgs of (s2, r) \<Rightarrow>
                (s2,
                 (case r of
                    Inl x \<Rightarrow> Inl x
                  | Inr entries \<Rightarrow>
                      Inr ((if txt \<noteq> []
                            then [\<lparr>image_url = img_url,
                                   alt_text = (case attr_get img (ascii ''alt'') of
                                                 None \<Rightarrow> [] | Some v \<Rightarrow> v),
                                   ocr_text = txt\<rparr>]
                            else []) @ entries)))))
          else ocr_images e c u s imgs)"

text \<open>
  The loop that fills \<open>files_content\<close>. The extraction is an argument, so that the loop
  can be studied for any result of the call \<open>self.extract_from_pdf(pdf_url)\<close>; the
  scraper passes its own method. An entry is appended when the text is neither \<open>None\<close>
  nor empty.
\<close>

fun pdf_entries ::
  "(state \<Rightarrow> pystr \<Rightarrow> state \<times> pdf_result) \<Rightarrow> state \<Rightarrow> pystr list \<Rightarrow> state \<times> file_entry list" where
  "pdf_entries extract s [] = (s, [])"
| "pdf_entries extract s (pdf_url # rest) =
     (case extract s pdf_url of (s1, result) \<Rightarrow>
      (case pdf_entries extract s1 rest of (s2, entries) \<Rightarrow>
         (s2,
          (case pdf_result_text result of
             None \<Rightarrow> []
           | Some t \<Rightarrow>
               if t \<noteq> []
               then [\<lparr>file_type = ascii ''PDF'', file_url = pdf_url,
                      content = (if length t > 10000 then take 10000 t @ ascii ''...'' else t),
                      local_path = pdf_result_local_path result\<rparr>]
               else []) @ entries)))"

text \<open>\<open>for pdf_url in list(links['files']['pdf'])[:3]\<close>, with the loop above as its body.\<close>

definition pdf_files_content ::
  "(state \<Rightarrow> pystr \<Rightarrow> state \<times> pdf_result) \<Rightarrow> env \<Rightarrow> state \<Rightarrow> links \<Rightarrow> state \<times> file_entry list" where
  "pdf_files_content extract e s ls = pdf_entries extract s (take 3 (set_order e (files_pdf ls)))"

section \<open>The crawler: \<open>scrape_page\<close> and \<open>run\<close>\<close>

text \<open>
  The \<open>try\<close> block of \<open>scrape_page\<close> up to the recursion (lines 195 to 254), for a URL
  that has just been marked as visited. The result is the new state and the links the
  recursion will follow, \<open>list(links['internal'])[:5]\<close>; when the block is left early or
  an exception is caught, there are none.
\<close>

definition visit_page :: "env \<Rightarrow> config \<Rightarrow> state \<Rightarrow> pystr \<Rightarrow> state \<times> pystr list" where
  "visit_page e c s u =
     (case session_get e Page_fetch u s of (s1, r) \<Rightarrow>
      (case r of
         Inl x \<Rightarrow> (s1, [])
       | Inr resp \<Rightarrow>
           if \<not> status_ok resp then (s1, [])
           else if \<not> contains (ascii ''text/html'') (header_get resp (ascii ''content-type''))
           then (s1, [])
           else
             let sp = decompose_all removed_tags (html_parser e (resp_text resp));
                 txt = main_text sp
             in (case (if ocr_enabled c
                       then ocr_images e c u s1 (find_all_with sp (ascii ''img'') (ascii ''src''))
                       else (s1, Inr [])) of
                   (s2, ocr) \<Rightarrow>
                     (case ocr of
                        Inl x \<Rightarrow> (s2, [])
                      | Inr img_texts \<Rightarrow>
                          (case extract_metadata sp of
                             Inl x \<Rightarrow> (s2, [])
                           | Inr md \<Rightarrow>
                               (case extract_links e c sp u of
                                  Inl x \<Rightarrow> (s2, [])
                                | Inr ls \<Rightarrow>
                                    (case pdf_files_content (extract_from_pdf e c) e s2 ls of
                                       (s3, fc) \<Rightarrow>
                                         (s3\<lparr>data := data s3 @
                                              [\<lparr>page_url = u, page_text = txt,
                                                images = img_texts, metadata = md,
                                                links_internal = set_order e (internal ls),
                                                links_external = set_order e (external ls),
                                                links_pdf = set_order e (files_pdf ls),
                                                links_images = set_order e (files_images ls),
                                                links_other = set_order e (files_other ls),
                                                files_content = fc\<rparr>]\<rparr>,
                                          take 5 (set_order e (internal ls))))))))))"

text \<open>
  The test at the head of \<open>scrape_page\<close>:
  \<open>url in self.visited_urls or len(self.visited_urls) >= self.max_pages\<close>.
\<close>

definition skip_page :: "config \<Rightarrow> state \<Rightarrow> pystr \<Rightarrow> bool" where
  "skip_page c s u \<longleftrightarrow> u \<in> set (visited_urls s) \<or> int (length (visited_urls s)) \<ge> max_pages c"

text \<open>
  \<open>scrape_page\<close> calls itself; the first argument bounds the depth of the recursion,
  and \<open>None\<close> means that the bound was reached. \<open>scrape_links\<close> is the loop
  \<open>for link in list(links['internal'])[:5]: self.scrape_page(link)\<close>. No exception
  leaves \<open>scrape_page\<close>, so none reaches the loop. The recursion limit of the
  interpreter is not part of the model.
\<close>

fun scrape_page :: "nat \<Rightarrow> env \<Rightarrow> config \<Rightarrow> state \<Rightarrow> pystr \<Rightarrow> state option"
  and scrape_links :: "nat \<Rightarrow> env \<Rightarrow> config \<Rightarrow> state \<Rightarrow> pystr list \<Rightarrow> state option" where
  "scrape_page 0 e c s u = (if skip_page c s u then Some s else None)"
| "scrape_page (Suc n) e c s u =
     (if skip_page c s u then Some s
      else
        (case visit_page e c (s\<lparr>visited_urls := set_add u (visited_urls s)\<rparr>) u of
           (s1, follow) \<Rightarrow> scrape_links n e c s1 follow))"
| "scrape_links n e c s [] = Some s"
| "scrape_links n e c s (link # rest) =
     (case scrape_page n e c s link of
        None \<Rightarrow> None
      | Some s1 \<Rightarrow> scrape_links n e c s1 rest)"

text \<open>
  A crawl starts from the empty state. No chain of nested calls is longer than
  \<open>max_pages\<close>, since every call that goes on adds a URL to \<open>visited_urls\<close>; this
  is proved below (\<open>scrape_page_returns\<close>).
\<close>

definition crawl :: "env \<Rightarrow> config \<Rightarrow> state option" where
  "crawl e c = scrape_page (nat (max_pages c)) e c init_state (root_url c)"

definition run :: "env \<Rightarrow> config \<Rightarrow> page list option" where
  "run e c = map_option data (crawl e c)"

text \<open>The URLs of the requests that \<open>scrape_page\<close> itself has made, in order.\<close>

definition page_fetches :: "state \<Rightarrow> pystr list" where
  "page_fetches s = map snd (filter (\<lambda>r. fst r = Page_fetch) (requests s))"

text \<open>
  The strings of class \<open>NavigableString\<close> or \<open>CData\<close> that lie outside every subtree
  with one of the given tag names, in document order.
\<close>

fun strings_outside :: "pystr list \<Rightarrow> node \<Rightarrow> pystr list" where
  "strings_outside tags (Str k t) = (if interesting k then [t] else [])"
| "strings_outside tags (Element n a cs) =
     (if n \<in> set tags then [] else concat (map (strings_outside tags) cs))"

text \<open>
  All strings, whatever their class, that lie outside every subtree with one of the
  given tag names: what is left of the text of the page once the subtrees are removed.
\<close>

fun remaining_strings :: "pystr list \<Rightarrow> node \<Rightarrow> (string_class \<times> pystr) list" where
  "remaining_strings tags (Str k t) = [(k, t)]"
| "remaining_strings tags (Element n a cs) =
     (if n \<in> set tags then [] else concat (map (remaining_strings tags) cs))"

section \<open>Predicates used to state the properties of a crawl\<close>

text \<open>
  \<open>same_crawl s s'\<close>: the step from \<open>s\<close> to \<open>s'\<close> has left \<open>visited_urls\<close> and \<open>data\<close>
  alone and has made no request from \<open>scrape_page\<close> itself.
\<close>

definition same_crawl :: "state \<Rightarrow> state \<Rightarrow> bool" where
  "same_crawl s s' \<longleftrightarrow>
     visited_urls s' = visited_urls s \<and> data s' = data s \<and> page_fetches s' = page_fetches s"

text \<open>The OCR step of \<open>visit_page\<close>, by name.\<close>

definition ocr_step ::
  "env \<Rightarrow> config \<Rightarrow> pystr \<Rightarrow> state \<Rightarrow> soup \<Rightarrow> state \<times> (exn + image_entry list)" where
  "ocr_step e c u s sp =
     (if ocr_enabled c then ocr_images e c u s (find_all_with sp (ascii ''img'') (ascii ''src''))
      else (s, Inr []))"

text \<open>
  \<open>within_cap\<close>: the list that stands for the set \<open>visited_urls\<close> has no repetition
  (so that its length is the number of URLs in the set) and the set has at most
  \<open>max_pages\<close> members.
\<close>

definition within_cap :: "config \<Rightarrow> state \<Rightarrow> bool" where
  "within_cap c s \<longleftrightarrow>
     distinct (visited_urls s) \<and> int (length (visited_urls s)) \<le> max_pages c"

text \<open>
  \<open>fetched_once\<close>: no URL has been requested twice by \<open>scrape_page\<close>, and every URL it
  has requested is in \<open>visited_urls\<close>.
\<close>

definition fetched_once :: "state \<Rightarrow> bool" where
  "fetched_once s \<longleftrightarrow>
     distinct (page_fetches s) \<and> set (page_fetches s) \<subseteq> set (visited_urls s)"

text \<open>The path that \<open>download_file(url, 'pdf')\<close> writes when \<open>n\<close> URLs have been visited.\<close>

definition pdf_path :: "env \<Rightarrow> nat \<Rightarrow> pystr" where
  "pdf_path e n =
     path_join e (ascii ''downloaded_documents'')
       (ascii ''document_'' @ str_nat n @ ascii ''_'' @ ascii ''pdf'' @ ascii ''.'' @ ascii ''pdf'')"

section \<open>The answer engine of \<open>main.py\<close>\<close>

text \<open>
  The chat-completion client is a parameter: for the n-th call of the run and the
  content of the user message it raises, or returns the \<open>message.content\<close> of each
  choice (\<open>None\<close> when a choice has no content). The system message, the model name,
  \<open>max_tokens\<close> and \<open>temperature\<close> are the same in every call.
\<close>

type_synonym llm_client = "nat \<Rightarrow> pystr \<Rightarrow> exn + pystr option list"

definition user_content :: "pystr \<Rightarrow> pystr" where
  \<comment> \<open>the f-string of the user message: the site content, after a fixed label\<close>
  "user_content prompt =
     [1050, 1086, 1085, 1090, 1077, 1085, 1090, 32, 1089, 1072, 1081, 1090, 1072, 58, 32] @ prompt"

text \<open>
  \<open>call_llm\<close>: \<open>response.choices[0].message.content.strip()\<close>, with \<open>IndexError\<close> for no
  choice and \<open>AttributeError\<close> for a content of \<open>None\<close>. The handler prints the error
  and the function ends without a \<open>return\<close>: the caller receives \<open>None\<close>.
\<close>

definition call_llm :: "llm_client \<Rightarrow> nat \<Rightarrow> pystr \<Rightarrow> pystr option" where
  "call_llm client k prompt =
     (case client k (user_content prompt) of
        Inl x \<Rightarrow> None
      | Inr chs \<Rightarrow>
          (case chs of
             [] \<Rightarrow> None
           | ch # _ \<Rightarrow> (case ch of None \<Rightarrow> None | Some t \<Rightarrow> Some (strip t))))"

definition question_prompt :: "pystr \<Rightarrow> pystr \<Rightarrow> pystr" where
  \<comment> \<open>the f-string \<open>prompt\<close> of \<open>answer_questions\<close>\<close>
  "question_prompt summary question =
     [1053, 1072, 32, 1086, 1089, 1085, 1086, 1074, 1077, 32, 1089, 1083, 1077, 1076, 1091,
      1102, 1097, 1077, 1075, 1086, 32, 1090, 1077, 1082, 1089, 1090, 1072, 58, 10] @
     summary @
     [10, 10, 1054, 1090, 1074, 1077, 1090, 1100, 32, 1090, 1086, 1095, 1085, 1086, 32, 1085,
      1072, 32, 1074, 1086, 1087, 1088, 1086, 1089, 58, 32] @
     question @
     [10, 1045, 1089, 1083, 1080, 32, 1080, 1085, 1092, 1086, 1088, 1084, 1072, 1094, 1080,
      1080, 32, 1085, 1077, 1090, 44, 32, 1085, 1072, 1087, 1080, 1096, 1080, 32, 39, 1048,
      1085, 1092, 1086, 1088, 1084, 1072, 1094, 1080, 1103, 32, 1085, 1077, 32, 1085, 1072,
      1081, 1076, 1077, 1085, 1072, 39]"

text \<open>
  The loop of \<open>answer_questions\<close>, from the k-th call of the client on; an answer is a
  string or \<open>None\<close>.
\<close>

fun answer_from :: "llm_client \<Rightarrow> nat \<Rightarrow> pystr \<Rightarrow> pystr list \<Rightarrow> (pystr \<times> pystr option) list" where
  "answer_from client k summary [] = []"
| "answer_from client k summary (question # rest) =
     (question, call_llm client k (question_prompt summary question)) #
       answer_from client (Suc k) summary rest"

definition answer_questions :: "llm_client \<Rightarrow> pystr \<Rightarrow> pystr list \<Rightarrow> (pystr \<times> pystr option) list" where
  "answer_questions client summary questions = answer_from client 0 summary questions"

text \<open>
  \<open>save_answers\<close>: the three \<open>write\<close> calls for one pair, and the file they produce.
  \<open>None\<close> is formatted as the text \<open>None\<close>.
\<close>

definition answer_block :: "pystr \<times> pystr option \<Rightarrow> pystr" where
  "answer_block qa =
     [1042, 1086, 1087, 1088, 1086, 1089, 58, 32] @ fst qa @ [10] @
     [1054, 1090, 1074, 1077, 1090, 58, 32] @
     (case snd qa of None \<Rightarrow> ascii ''None'' | Some a \<Rightarrow> a) @ [10] @
     replicate 80 45 @ [10, 10]"

definition save_answers ::
  "(pystr \<rightharpoonup> pystr) \<Rightarrow> (pystr \<times> pystr option) list \<Rightarrow> pystr \<Rightarrow> (pystr \<rightharpoonup> pystr)" where
  "save_answers fs answers filename = fs(filename \<mapsto> concat (map answer_block answers))"

section \<open>A concrete environment for the examples\<close>

text \<open>
  The examples below run the model in a small environment. Its \<open>urljoin\<close> resolves the
  kinds of \<open>href\<close> the examples use (a URL with a scheme, an absolute path, \<open>.\<close>,
  \<open>./\<close>, a relative name and the malformed \<open>http://[\<close>) as \<open>urllib.parse.urljoin\<close>
  does, its \<open>netloc\<close> is the part between \<open>://\<close> and the next slash (empty when there
  is no \<open>://\<close>), and its tables are those of ASCII.
\<close>

fun drop_scheme :: "pystr \<Rightarrow> pystr option" where
  "drop_scheme [] = None"
| "drop_scheme (c # cs) =
     (if take 3 (c # cs) = ascii ''://'' then Some (drop 3 (c # cs)) else drop_scheme cs)"

text \<open>
  \<open>urlsplit\<close> raises \<open>ValueError\<close> ("Invalid IPv6 URL") when the network location has
  one of the brackets \<open>[\<close> and \<open>]\<close> without the other.
\<close>

definition raw_netloc :: "pystr \<Rightarrow> pystr" where
  "raw_netloc u =
     (case drop_scheme u of None \<Rightarrow> [] | Some r \<Rightarrow> takeWhile (\<lambda>c. c \<noteq> 47) r)"

definition bad_netloc :: "pystr \<Rightarrow> bool" where
  "bad_netloc u \<longleftrightarrow> (91 \<in> set (raw_netloc u)) \<noteq> (93 \<in> set (raw_netloc u))"

definition demo_netloc :: "pystr \<Rightarrow> exn + pystr" where
  "demo_netloc u = (if bad_netloc u then Inl ValueError else Inr (raw_netloc u))"

definition demo_origin :: "pystr \<Rightarrow> pystr" where
  "demo_origin u =
     (case drop_scheme u of None \<Rightarrow> []
      | Some r \<Rightarrow> take (length u - length (dropWhile (\<lambda>c. c \<noteq> 47) r)) u)"

definition demo_dir :: "pystr \<Rightarrow> pystr" where
  "demo_dir u = rev (dropWhile (\<lambda>c. c \<noteq> 47) (rev u))"

definition demo_urljoin :: "pystr \<Rightarrow> pystr \<Rightarrow> exn + pystr" where
  "demo_urljoin base href =
     (if bad_netloc base \<or> bad_netloc href then Inl ValueError
      else if drop_scheme href \<noteq> None \<or> startswith href (ascii ''mailto:'') then Inr href
      else if href = ascii ''.'' \<or> href = ascii ''./'' then Inr (demo_dir base)
      else if startswith href (ascii ''/'') then Inr (demo_origin base @ href)
      else Inr (demo_dir base @ href))"

definition demo_lower :: "pystr \<Rightarrow> pystr" where
  "demo_lower s = map (\<lambda>c. if 65 \<le> c \<and> c \<le> 90 then c + 32 else c) s"

definition demo_isword :: "nat \<Rightarrow> bool" where
  "demo_isword c \<longleftrightarrow> (48 \<le> c \<and> c \<le> 57) \<or> (65 \<le> c \<and> c \<le> 90) \<or> (97 \<le> c \<and> c \<le> 122) \<or> c = 95"

fun demo_digits :: "pystr \<Rightarrow> nat option" where
  "demo_digits [] = Some 0"
| "demo_digits (c # cs) =
     (if 48 \<le> c \<and> c \<le> 57
      then (case demo_digits cs of None \<Rightarrow> None | Some n \<Rightarrow> Some ((c - 48) * 10 ^ length cs + n))
      else None)"

definition demo_parse_int :: "pystr \<Rightarrow> int option" where
  "demo_parse_int s = (if s = [] then None else map_option int (demo_digits s))"

text \<open>
  The environment over a given network and OCR engine. Paths are joined with a slash,
  the base name is what follows the last slash, and a set is iterated in insertion
  order.
\<close>

definition demo_env ::
  "(nat \<Rightarrow> pystr \<Rightarrow> exn + response) \<Rightarrow> (pystr \<Rightarrow> soup) \<Rightarrow>
   (nat \<Rightarrow> nat list \<Rightarrow> exn + pystr) \<Rightarrow> env" where
  "demo_env net parser ocr =
     \<lparr>isword = demo_isword, lower = demo_lower, parse_int = demo_parse_int,
      urljoin = demo_urljoin, netloc = demo_netloc,
      path_join = (\<lambda>a b. a @ 47 # b),
      basename = (\<lambda>p. last (split_char 47 p)),
      set_order = (\<lambda>s. s),
      http_get = net, html_parser = parser, image_to_string = ocr,
      pdf_text = (\<lambda>b. Inr b)\<rparr>"

text \<open>An environment whose network is down: every request raises.\<close>

definition offline_env :: env where
  "offline_env = demo_env (\<lambda>n url. Inl (Other (ascii ''connection refused'')))
     (\<lambda>t. []) (\<lambda>n b. Inl (Other (ascii ''no tesseract'')))"

definition demo_config :: config where
  "demo_config = \<lparr>root_url = ascii ''http://example.com/'', max_pages = 20,
     ocr_enabled = True, max_file_size = 10 * 1024 * 1024, download_documents = True\<rparr>"

definition anchor :: "string \<Rightarrow> node" where
  "anchor href = Element (ascii ''a'') [(ascii ''href'', ascii href)] []"

text \<open>
  A site of two pages that link to each other, to a missing page and to a PDF; the home
  page carries a script and an image.
\<close>

definition html_response :: "pystr \<Rightarrow> response" where
  "html_response t =
     \<lparr>status_ok = True,
      headers = [ascii ''content-type'' \<mapsto> ascii ''text/html; charset=utf-8''],
      resp_text = t, body = ([], None)\<rparr>"

definition file_response :: "string \<Rightarrow> nat list \<Rightarrow> response" where
  "file_response ctype bytes =
     \<lparr>status_ok = True,
      headers = [ascii ''content-type'' \<mapsto> ascii ctype, ascii ''content-length'' \<mapsto> ascii ''3''],
      resp_text = [], body = (bytes, None)\<rparr>"

definition site_net :: "nat \<Rightarrow> pystr \<Rightarrow> exn + response" where
  "site_net n u =
     (if u = ascii ''http://example.com/'' then Inr (html_response (ascii ''home''))
      else if u = ascii ''http://example.com/a'' then Inr (html_response (ascii ''a''))
      else if u = ascii ''http://example.com/doc.pdf''
      then Inr (file_response ''application/pdf'' [37, 80, 68])
      else if u = ascii ''http://example.com/pic.png''
      then Inr (file_response ''image/png'' [137, 80, 78])
      else Inl (Other (ascii ''not found'')))"

definition site_parser :: "pystr \<Rightarrow> soup" where
  "site_parser t =
     (if t = ascii ''home''
      then [Element (ascii ''html'') []
              [Element (ascii ''title'') [] [Text (ascii ''Home'')],
               Element (ascii ''script'') [] [Text (ascii ''var x;'')],
               Text (ascii '' Welcome ''),
               anchor ''/a'', anchor ''/b'', anchor ''/doc.pdf'',
               Element (ascii ''img'') [(ascii ''src'', ascii ''/pic.png'')] []]]
      else [Text (ascii ''Page a''), anchor ''/'', anchor ''/b''])"

text \<open>The site with an OCR engine that cannot read the image and raises.\<close>

definition site_env :: env where
  "site_env = demo_env site_net site_parser (\<lambda>n b. Inl (Other (ascii ''cannot identify image'')))"

definition site_config :: config where
  "site_config = \<lparr>root_url = ascii ''http://example.com/'', max_pages = 2,
     ocr_enabled = True, max_file_size = 10 * 1024 * 1024, download_documents = True\<rparr>"

text \<open>
  A state in which the root URL has been visited, an extraction that succeeds with a
  short text, and a page with four PDF links.
\<close>

definition root_visited :: state where
  "root_visited = init_state\<lparr>visited_urls := [ascii ''http://example.com/'']\<rparr>"

definition demo_extract :: "state \<Rightarrow> pystr \<Rightarrow> state \<times> pdf_result" where
  "demo_extract s u =
     (s, \<lparr>pdf_result_text = Some (ascii ''text of '' @ u), pdf_result_local_path = None\<rparr>)"

definition four_pdfs :: links where
  "four_pdfs = empty_links\<lparr>files_pdf := [ascii ''a.pdf'', ascii ''b.pdf'', ascii ''c.pdf'',
     ascii ''d.pdf'']\<rparr>"

text \<open>
  Five questions, and a client that raises for the third call and answers every other
  call with the number of the call.
\<close>

definition five_questions :: "pystr list" where
  "five_questions = [ascii ''q1'', ascii ''q2'', ascii ''q3'', ascii ''q4'', ascii ''q5'']"

definition third_call_fails :: llm_client where
  "third_call_fails k msg =
     (if k = 2 then Inl (Other (ascii ''timeout'')) else Inr [Some (ascii '' answer '' @ str_nat k)])"

text \<open>
  A page with a ruby annotation and a template, as the parser builds it: the text of
  the \<open>rt\<close> and \<open>template\<close> elements has its own string class.
\<close>

definition ruby_page :: soup where
  "ruby_page =
     [Element (ascii ''ruby'') []
        [Text [75], Element (ascii ''rt'') [] [Str RubyTextString [107, 97, 110]]],
      Element (ascii ''template'') [] [Str TemplateString [116, 112, 108]],
      Text [101, 110, 100]]"

section \<open>Properties of the text normalizer\<close>

lemma nows_Nil [simp]: "nows []"
  by (simp add: nows_def)

lemma nows_Cons [simp]: "nows (d # ds) = (\<not> isspace d)"
  by (simp add: nows_def)

lemma nows_dropWhile: "nows (dropWhile isspace xs)"
  by (induction xs) auto

lemma single_dropWhile: "single xs \<Longrightarrow> single (dropWhile isspace xs)"
  by (induction xs) auto

lemma sub_spaces_nows: "nows xs \<Longrightarrow> nows (sub_spaces xs)"
  by (cases xs) auto

lemma single_sub_spaces: "single (sub_spaces xs)"
  by (induction xs rule: sub_spaces.induct) (auto simp: nows_dropWhile sub_spaces_nows)

lemma nows_sub_hyphen: "nows xs \<Longrightarrow> nows (sub_hyphen_spaces xs)"
proof (induction xs rule: sub_hyphen_spaces.induct)
  case 1 then show ?case by simp
next
  case (2 c cs)
  show ?case
  proof (cases "c = 45 \<and> (case cs of [] \<Rightarrow> False | d # _ \<Rightarrow> isspace d)")
    case True
    then have "nows (sub_hyphen_spaces (dropWhile isspace cs))"
      using "2.IH"(1) nows_dropWhile by blast
    with True show ?thesis by simp
  next
    case False
    with "2.prems" show ?thesis by auto
  qed
qed

lemma tidy_sub_hyphen: "single xs \<Longrightarrow> tidy (sub_hyphen_spaces xs)"
proof (induction xs rule: sub_hyphen_spaces.induct)
  case 1 then show ?case by simp
next
  case (2 c cs)
  from "2.prems" have sc: "single cs" and c32: "isspace c \<longrightarrow> c = 32 \<and> nows cs" by auto
  show ?case
  proof (cases "c = 45 \<and> (case cs of [] \<Rightarrow> False | d # _ \<Rightarrow> isspace d)")
    case True
    then have "tidy (sub_hyphen_spaces (dropWhile isspace cs))"
      using "2.IH"(1) single_dropWhile [OF sc] by blast
    with True show ?thesis by simp
  next
    case False
    then have t: "tidy (sub_hyphen_spaces cs)" using "2.IH"(2) sc by blast
    have a: "isspace c \<longrightarrow> c = 32 \<and> nows (sub_hyphen_spaces cs)"
      using c32 nows_sub_hyphen by blast
    have b: "c = 45 \<longrightarrow> nows (sub_hyphen_spaces cs)"
    proof
      assume "c = 45"
      with False have "nows cs" by (cases cs) auto
      then show "nows (sub_hyphen_spaces cs)" by (rule nows_sub_hyphen)
    qed
    from False have "sub_hyphen_spaces (c # cs) = c # sub_hyphen_spaces cs" by auto
    with t a b show ?thesis by simp
  qed
qed

lemma tidy_dropWhile: "tidy xs \<Longrightarrow> tidy (dropWhile isspace xs)"
  by (induction xs) auto

lemma tidy_append: "tidy (xs @ ys) \<Longrightarrow> tidy xs"
proof (induction xs)
  case Nil then show ?case by simp
next
  case (Cons a xs)
  then show ?case by (cases xs) auto
qed

lemma strip_prefix: "\<exists>zs. dropWhile isspace xs = strip xs @ zs"
proof -
  let ?ys = "dropWhile isspace xs"
  have "rev (rev ?ys) = rev (takeWhile isspace (rev ?ys) @ dropWhile isspace (rev ?ys))"
    by simp
  then have "?ys = strip xs @ rev (takeWhile isspace (rev ?ys))"
    by (simp only: rev_append rev_rev_ident strip_def)
  then show ?thesis ..
qed

lemma tidy_strip: "tidy xs \<Longrightarrow> tidy (strip xs)"
proof -
  assume "tidy xs"
  then have "tidy (dropWhile isspace xs)" by (rule tidy_dropWhile)
  moreover obtain zs where "dropWhile isspace xs = strip xs @ zs"
    using strip_prefix by blast
  ultimately show ?thesis using tidy_append by metis
qed

lemma nows_dropWhile_id: "nows xs \<Longrightarrow> dropWhile isspace xs = xs"
  by (cases xs) auto

lemma nows_prefix: "nows (xs @ ys) \<Longrightarrow> nows xs"
  by (cases xs) auto

lemma nows_strip: "nows (strip xs)"
proof -
  obtain zs where "dropWhile isspace xs = strip xs @ zs"
    using strip_prefix by blast
  then have "nows (strip xs @ zs)" using nows_dropWhile [of xs] by simp
  then show ?thesis by (rule nows_prefix)
qed

lemma nows_rev_strip: "nows (rev (strip xs))"
  by (simp add: strip_def nows_dropWhile)

lemma strip_id: "nows xs \<Longrightarrow> nows (rev xs) \<Longrightarrow> strip xs = xs"
  by (simp add: strip_def nows_dropWhile_id)

lemma sub_spaces_id: "tidy xs \<Longrightarrow> sub_spaces xs = xs"
  by (induction xs) (auto simp: nows_dropWhile_id)

lemma sub_hyphen_id: "tidy xs \<Longrightarrow> sub_hyphen_spaces xs = xs"
proof (induction xs)
  case Nil then show ?case by simp
next
  case (Cons c cs)
  then show ?case by (cases cs) auto
qed

lemma set_sub_spaces: "set (sub_spaces xs) \<subseteq> insert 32 (set xs)"
proof (induction xs rule: sub_spaces.induct)
  case 1 then show ?case by simp
next
  case (2 c cs)
  have "set (dropWhile isspace cs) \<subseteq> set cs" by (rule set_dropWhileD [THEN subsetI])
  with 2 show ?case by auto
qed

lemma set_sub_hyphen: "set (sub_hyphen_spaces xs) \<subseteq> set xs"
proof (induction xs rule: sub_hyphen_spaces.induct)
  case 1 then show ?case by simp
next
  case (2 c cs)
  have "set (dropWhile isspace cs) \<subseteq> set cs" by (rule set_dropWhileD [THEN subsetI])
  with 2 show ?case by auto
qed

lemma set_strip: "set (strip xs) \<subseteq> set xs"
proof -
  obtain zs where "dropWhile isspace xs = strip xs @ zs"
    using strip_prefix by blast
  then have "set (strip xs) \<subseteq> set (dropWhile isspace xs)" by simp
  also have "\<dots> \<subseteq> set xs" by (rule set_dropWhileD [THEN subsetI])
  finally show ?thesis .
qed

lemma allowed_space: "allowed w 32"
  by (simp add: allowed_def isspace_def)

lemma clean_text_allowed: "c \<in> set (clean_text w x) \<Longrightarrow> allowed w c"
proof -
  assume "c \<in> set (clean_text w x)"
  then have "c \<in> set (sub_hyphen_spaces (sub_spaces (filter (allowed w) x)))"
    using set_strip unfolding clean_text_def by blast
  then have "c \<in> set (sub_spaces (filter (allowed w) x))"
    using set_sub_hyphen by blast
  then have "c \<in> insert 32 (set (filter (allowed w) x))"
    using set_sub_spaces by blast
  then show ?thesis using allowed_space by auto
qed

text \<open>
  Claim C6. The text normalizer is idempotent: for every string \<open>x\<close> and every table of
  word characters, \<open>clean_text (clean_text x) = clean_text x\<close>. The result of
  \<open>clean_text\<close> contains allowed code points only, its whitespace is single spaces, no
  hyphen in it is followed by whitespace and it neither starts nor ends with whitespace,
  so each of the four steps leaves it as it is.
\<close>

theorem clean_text_idempotent: "clean_text w (clean_text w x) = clean_text w x"
proof -
  let ?y = "clean_text w x"
  have t: "tidy ?y"
    unfolding clean_text_def by (intro tidy_strip tidy_sub_hyphen single_sub_spaces)
  have f: "filter (allowed w) ?y = ?y"
    by (simp add: clean_text_allowed)
  have n: "nows ?y" "nows (rev ?y)"
    unfolding clean_text_def by (rule nows_strip, rule nows_rev_strip)
  have "clean_text w ?y = strip (sub_hyphen_spaces (sub_spaces ?y))"
    using f by (simp add: clean_text_def)
  also have "\<dots> = strip ?y" using t by (simp add: sub_spaces_id sub_hyphen_id)
  also have "\<dots> = ?y" using n by (rule strip_id)
  finally show ?thesis .
qed

section \<open>Properties of the link classifier\<close>

lemma split_char_nonempty: "split_char d s \<noteq> []"
  by (induction s) (auto split: list.splits)

lemma set_set_add [simp]: "set (set_add x s) = insert x (set s)"
  by (auto simp: set_add_def)

lemma distinct_set_add [simp]: "distinct s \<Longrightarrow> distinct (set_add x s)"
  by (auto simp: set_add_def)

lemma classify_link_raises:
  "classify_link e c base ls h = Inl x \<longleftrightarrow> bucket_of e c base h = Inl x"
  by (simp add: classify_link_def bucket_of_def split: sum.split)

lemma classify_link_bucket:
  "classify_link e c base ls h = Inr ls' \<Longrightarrow>
     \<exists>u b0. bucket_of e c base h = Inr (u, b0) \<and>
       (\<forall>b. set (bucket_urls b ls') =
          (if b = b0 then insert u (set (bucket_urls b ls)) else set (bucket_urls b ls)))"
proof -
  assume a: "classify_link e c base ls h = Inr ls'"
  then obtain u where u: "urljoin e base h = Inr u"
    by (cases "urljoin e base h") (simp_all add: classify_link_def)
  with a obtain v where v: "is_valid_url e c u = Inr v"
    by (cases "is_valid_url e c u") (simp_all add: classify_link_def)
  have "\<exists>b0. bucket_of e c base h = Inr (u, b0)"
    using u v by (simp add: bucket_of_def)
  then obtain b0 where b0: "bucket_of e c base h = Inr (u, b0)" ..
  have "\<forall>b. set (bucket_urls b ls') =
      (if b = b0 then insert u (set (bucket_urls b ls)) else set (bucket_urls b ls))"
  proof
    fix b
    show "set (bucket_urls b ls') =
      (if b = b0 then insert u (set (bucket_urls b ls)) else set (bucket_urls b ls))"
      using a b0 u v
      by (cases b) (auto simp: classify_link_def bucket_of_def split: if_splits)
  qed
  with b0 show ?thesis by blast
qed

lemma classify_links_bucket:
  "classify_links e c base ls hs = Inr ls' \<Longrightarrow>
     (u \<in> set (bucket_urls b ls') \<longleftrightarrow>
        u \<in> set (bucket_urls b ls) \<or> (\<exists>h\<in>set hs. bucket_of e c base h = Inr (u, b)))"
proof (induction hs arbitrary: ls)
  case Nil then show ?case by simp
next
  case (Cons h hs)
  from Cons.prems obtain l1 where l1: "classify_link e c base ls h = Inr l1"
    and r: "classify_links e c base l1 hs = Inr ls'"
    by (auto split: sum.splits)
  from classify_link_bucket [OF l1] obtain u0 b0 where
    b0: "bucket_of e c base h = Inr (u0, b0)"
    and s: "\<And>b. set (bucket_urls b l1) =
          (if b = b0 then insert u0 (set (bucket_urls b ls)) else set (bucket_urls b ls))"
    by blast
  show ?case
    unfolding Cons.IH [OF r] s using b0 by auto
qed

lemma classify_links_returns:
  "(\<exists>ls'. classify_links e c base ls hs = Inr ls') \<longleftrightarrow>
     (\<forall>h\<in>set hs. \<exists>u b. bucket_of e c base h = Inr (u, b))"
proof (induction hs arbitrary: ls)
  case Nil then show ?case by simp
next
  case (Cons h hs)
  show ?case
  proof (cases "classify_link e c base ls h")
    case (Inl x)
    then have "bucket_of e c base h = Inl x" by (simp add: classify_link_raises)
    with Inl show ?thesis by simp
  next
    case (Inr l1)
    from classify_link_bucket [OF Inr] obtain u0 b0 where
      "bucket_of e c base h = Inr (u0, b0)" by blast
    with Inr Cons.IH [of l1] show ?thesis by simp
  qed
qed

lemma extract_links_bucket:
  "extract_links e c sp base = Inr ls \<Longrightarrow>
     (u \<in> set (bucket_urls b ls) \<longleftrightarrow>
        (\<exists>h\<in>set (anchor_hrefs sp). bucket_of e c base h = Inr (u, b)))"
  unfolding extract_links_def
  by (drule classify_links_bucket [where u = u and b = b])
     (cases b; simp add: empty_links_def)

text \<open>
  Claim C3, as the code has it. \<open>extract_links\<close> is a deterministic function of the
  environment, the root URL, the page and its base URL, but not a total one: it
  returns a result exactly when \<open>urljoin\<close> and \<open>urlparse\<close> raise for no anchor of the page
  (it does not catch their \<open>ValueError\<close>). When it returns, every anchor has added its
  resolved URL to exactly one bucket, the one \<open>bucket_of\<close> names: whether the URL is
  external is decided on the resolved URL, the kind of file on the text of the
  \<open>href\<close>. So a bucket holds a URL exactly when some anchor of the page resolves to it
  and was classified into that bucket, and the URL of an anchor lies in exactly one
  bucket whenever all anchors of the page that resolve to it are classified alike.
\<close>

theorem extract_links_classifies:
  "((\<exists>ls. extract_links e c sp base = Inr ls) \<longleftrightarrow>
      (\<forall>h\<in>set (anchor_hrefs sp). \<exists>u b. bucket_of e c base h = Inr (u, b))) \<and>
   (extract_links e c sp base = Inr ls \<longrightarrow>
      (u \<in> set (bucket_urls b ls) \<longleftrightarrow>
         (\<exists>h\<in>set (anchor_hrefs sp). bucket_of e c base h = Inr (u, b)))) \<and>
   (extract_links e c sp base = Inr ls \<longrightarrow> h \<in> set (anchor_hrefs sp) \<longrightarrow>
      bucket_of e c base h = Inr (u0, b0) \<longrightarrow>
      (\<forall>h'\<in>set (anchor_hrefs sp). \<forall>b'. bucket_of e c base h' = Inr (u0, b') \<longrightarrow> b' = b0) \<longrightarrow>
      (\<exists>!b. u0 \<in> set (bucket_urls b ls)))"
proof (intro conjI impI)
  show "(\<exists>ls. extract_links e c sp base = Inr ls) \<longleftrightarrow>
      (\<forall>h\<in>set (anchor_hrefs sp). \<exists>u b. bucket_of e c base h = Inr (u, b))"
    unfolding extract_links_def by (rule classify_links_returns)
next
  assume "extract_links e c sp base = Inr ls"
  then show "u \<in> set (bucket_urls b ls) \<longleftrightarrow>
         (\<exists>h\<in>set (anchor_hrefs sp). bucket_of e c base h = Inr (u, b))"
    by (rule extract_links_bucket)
next
  assume r: "extract_links e c sp base = Inr ls" and h: "h \<in> set (anchor_hrefs sp)"
    and b0: "bucket_of e c base h = Inr (u0, b0)"
    and same: "\<forall>h'\<in>set (anchor_hrefs sp). \<forall>b'. bucket_of e c base h' = Inr (u0, b') \<longrightarrow> b' = b0"
  show "\<exists>!b. u0 \<in> set (bucket_urls b ls)"
  proof (rule ex1I [of _ b0])
    show "u0 \<in> set (bucket_urls b0 ls)"
      using extract_links_bucket [OF r] h b0 by blast
  next
    fix b assume "u0 \<in> set (bucket_urls b ls)"
    then obtain h' where "h' \<in> set (anchor_hrefs sp)" "bucket_of e c base h' = Inr (u0, b)"
      using extract_links_bucket [OF r] by blast
    with same show "b = b0" by blast
  qed
qed

text \<open>
  The scenario of the specification: on the root \<open>example.com\<close> the anchors \<open>/about\<close>,
  \<open>https://other.example/x\<close>, \<open>/doc.pdf\<close> and \<open>/pic.jpg\<close>; the classifier returns and the
  PDF link lies in one bucket only.
\<close>

theorem extract_links_classifies_witness:
  "(\<exists>ls. extract_links offline_env demo_config
        [anchor ''/about'', anchor ''https://other.example/x'', anchor ''/doc.pdf'',
         anchor ''/pic.jpg'']
        (ascii ''http://example.com/'') = Inr ls) \<and>
   (\<exists>!b. ascii ''http://example.com/doc.pdf'' \<in> set (bucket_urls b
      (projr (extract_links offline_env demo_config
        [anchor ''/about'', anchor ''https://other.example/x'', anchor ''/doc.pdf'',
         anchor ''/pic.jpg'']
        (ascii ''http://example.com/'')))))"
proof -
  let ?sp = "[anchor ''/about'', anchor ''https://other.example/x'', anchor ''/doc.pdf'',
    anchor ''/pic.jpg'']"
  let ?base = "ascii ''http://example.com/''"
  let ?h = "ascii ''/doc.pdf''"
  let ?u = "ascii ''http://example.com/doc.pdf''"
  let ?ls = "projr (extract_links offline_env demo_config ?sp ?base)"
  have r: "extract_links offline_env demo_config ?sp ?base = Inr ?ls"
    by code_simp
  have hs: "anchor_hrefs ?sp =
      [ascii ''/about'', ascii ''https://other.example/x'', ascii ''/doc.pdf'', ascii ''/pic.jpg'']"
    by code_simp
  have b1: "bucket_of offline_env demo_config ?base (ascii ''/about'') =
      Inr (ascii ''http://example.com/about'', Internal)"
    by code_simp
  have b2: "bucket_of offline_env demo_config ?base (ascii ''https://other.example/x'') =
      Inr (ascii ''https://other.example/x'', External)"
    by code_simp
  have b3: "bucket_of offline_env demo_config ?base ?h = Inr (?u, Files_pdf)"
    by code_simp
  have b4: "bucket_of offline_env demo_config ?base (ascii ''/pic.jpg'') =
      Inr (ascii ''http://example.com/pic.jpg'', Files_images)"
    by code_simp
  have p1: "?h \<in> set (anchor_hrefs ?sp)"
    by (simp add: hs)
  have n1: "ascii ''http://example.com/about'' \<noteq> ?u"
    by (simp add: ascii_def)
  have n2: "ascii ''https://other.example/x'' \<noteq> ?u"
    by (simp add: ascii_def)
  have n4: "ascii ''http://example.com/pic.jpg'' \<noteq> ?u"
    by (simp add: ascii_def)
  have p2: "\<forall>h'\<in>set (anchor_hrefs ?sp). \<forall>b'.
      bucket_of offline_env demo_config ?base h' = Inr (?u, b') \<longrightarrow> b' = Files_pdf"
    by (simp add: hs b1 b2 b3 b4 n1 n2 n4)
  from extract_links_classifies
         [where e = offline_env and c = demo_config and sp = "?sp" and base = "?base"
            and ls = "?ls" and h = "?h" and ?u0.0 = "?u" and ?b0.0 = Files_pdf]
       r p1 b3 p2
  show ?thesis by blast
qed

text \<open>
  Claim C3 as stated fails: the anchors \<open>.\<close> and \<open>./\<close> on the page
  \<open>http://example.com/dir/page\<close> both resolve to \<open>http://example.com/dir/\<close>. The last
  segment of the first \<open>href\<close> contains a dot, that of the second is empty, so the same
  URL is placed in \<open>files.other\<close> and in \<open>internal\<close>.
\<close>

theorem same_url_two_buckets:
  "map_sum id files_other (extract_links offline_env demo_config
       [anchor ''.'', anchor ''./''] (ascii ''http://example.com/dir/page'')) =
     Inr [ascii ''http://example.com/dir/''] \<and>
   map_sum id internal (extract_links offline_env demo_config
       [anchor ''.'', anchor ''./''] (ascii ''http://example.com/dir/page'')) =
     Inr [ascii ''http://example.com/dir/'']"
  by code_simp

text \<open>
  Nor is the classifier total: for the anchor \<open>http://[\<close> the call of \<open>urljoin\<close> raises
  \<open>ValueError\<close>, and with it \<open>extract_links\<close>.
\<close>

lemma malformed_href_raises:
  "extract_links offline_env demo_config [anchor ''/about'', anchor ''http://['']
     (ascii ''http://example.com/'') = Inl ValueError"
  by code_simp

lemma bucket_of_no_netloc:
  "bucket_of e c base h = Inr (u, b) \<Longrightarrow> netloc e u = Inr [] \<Longrightarrow> b = External"
  by (auto simp: bucket_of_def is_valid_url_def split: sum.splits if_splits)

lemma bucket_of_url:
  "bucket_of e c base h = Inr (u, b) \<Longrightarrow> urljoin e base h = Inr u"
  by (auto simp: bucket_of_def split: sum.splits if_splits)

text \<open>
  Claim C4, as the code has it. A resolved URL without a network location fails
  \<open>is_valid_url\<close>, and \<open>extract_links\<close> adds every URL that fails it to the bucket
  \<open>external\<close>: when the classifier returns, such a URL is in \<open>external\<close> and in no
  other bucket. The classifier changes no state, but it has an error condition: when
  \<open>urljoin\<close> or \<open>urlparse\<close> raises for an anchor, \<open>extract_links\<close> raises as well.
\<close>

theorem no_netloc_is_external:
  "(extract_links e c sp base = Inr ls \<longrightarrow> h \<in> set (anchor_hrefs sp) \<longrightarrow>
      urljoin e base h = Inr u \<longrightarrow> netloc e u = Inr [] \<longrightarrow>
      u \<in> set (external ls) \<and> (\<forall>b. b \<noteq> External \<longrightarrow> u \<notin> set (bucket_urls b ls))) \<and>
   (h \<in> set (anchor_hrefs sp) \<longrightarrow> urljoin e base h = Inl x \<longrightarrow>
      (\<exists>y. extract_links e c sp base = Inl y)) \<and>
   (h \<in> set (anchor_hrefs sp) \<longrightarrow> urljoin e base h = Inr u \<longrightarrow> netloc e u = Inl x \<longrightarrow>
      (\<exists>y. extract_links e c sp base = Inl y))"
proof (intro conjI impI allI)
  assume r: "extract_links e c sp base = Inr ls" and h: "h \<in> set (anchor_hrefs sp)"
    and u: "urljoin e base h = Inr u" and n: "netloc e u = Inr []"
  have "\<exists>ls. extract_links e c sp base = Inr ls" using r by blast
  then have "\<forall>h\<in>set (anchor_hrefs sp). \<exists>u b. bucket_of e c base h = Inr (u, b)"
    unfolding extract_links_def classify_links_returns .
  with h obtain u' b where b: "bucket_of e c base h = Inr (u', b)" by blast
  with u have "u' = u" using bucket_of_url by fastforce
  with b n have "bucket_of e c base h = Inr (u, External)"
    using bucket_of_no_netloc by blast
  with h have "u \<in> set (bucket_urls External ls)"
    using extract_links_bucket [OF r] by blast
  then show "u \<in> set (external ls)" by simp
next
  fix b
  assume r: "extract_links e c sp base = Inr ls" and n: "netloc e u = Inr []"
    and b: "b \<noteq> External"
  show "u \<notin> set (bucket_urls b ls)"
  proof
    assume "u \<in> set (bucket_urls b ls)"
    then obtain h' where "bucket_of e c base h' = Inr (u, b)"
      using extract_links_bucket [OF r] by blast
    with n b show False using bucket_of_no_netloc by blast
  qed
next
  assume h: "h \<in> set (anchor_hrefs sp)" and u: "urljoin e base h = Inl x"
  then have "bucket_of e c base h = Inl x" by (simp add: bucket_of_def)
  with h have "\<not> (\<forall>h\<in>set (anchor_hrefs sp). \<exists>u b. bucket_of e c base h = Inr (u, b))"
    by force
  then have "\<not> (\<exists>ls. extract_links e c sp base = Inr ls)"
    unfolding extract_links_def classify_links_returns .
  then show "\<exists>y. extract_links e c sp base = Inl y"
    by (cases "extract_links e c sp base") auto
next
  assume h: "h \<in> set (anchor_hrefs sp)" and u: "urljoin e base h = Inr u"
    and n: "netloc e u = Inl x"
  then have "bucket_of e c base h = Inl x" by (simp add: bucket_of_def is_valid_url_def)
  with h have "\<not> (\<forall>h\<in>set (anchor_hrefs sp). \<exists>u b. bucket_of e c base h = Inr (u, b))"
    by force
  then have "\<not> (\<exists>ls. extract_links e c sp base = Inr ls)"
    unfolding extract_links_def classify_links_returns .
  then show "\<exists>y. extract_links e c sp base = Inl y"
    by (cases "extract_links e c sp base") auto
qed

text \<open>
  On a page with the anchors \<open>/about\<close> and \<open>mailto:a@b.c\<close> the second is external only;
  on a page with the anchor \<open>http://[\<close> the classifier raises.
\<close>

theorem no_netloc_is_external_witness:
  "ascii ''mailto:a@b.c'' \<in> set (external (projr (extract_links offline_env demo_config
       [anchor ''/about'', anchor ''mailto:a@b.c''] (ascii ''http://example.com/'')))) \<and>
   ascii ''mailto:a@b.c'' \<notin> set (internal (projr (extract_links offline_env demo_config
       [anchor ''/about'', anchor ''mailto:a@b.c''] (ascii ''http://example.com/'')))) \<and>
   ascii ''mailto:a@b.c'' \<notin> set (files_other (projr (extract_links offline_env demo_config
       [anchor ''/about'', anchor ''mailto:a@b.c''] (ascii ''http://example.com/'')))) \<and>
   (\<exists>y. extract_links offline_env demo_config [anchor ''/about'', anchor ''http://['']
       (ascii ''http://example.com/'') = Inl y)"
proof -
  let ?sp = "[anchor ''/about'', anchor ''mailto:a@b.c'']"
  let ?sp2 = "[anchor ''/about'', anchor ''http://['']"
  let ?base = "ascii ''http://example.com/''"
  let ?h = "ascii ''mailto:a@b.c''"
  let ?ls = "projr (extract_links offline_env demo_config ?sp ?base)"
  have r: "extract_links offline_env demo_config ?sp ?base = Inr ?ls"
    by code_simp
  have p1: "?h \<in> set (anchor_hrefs ?sp)"
    by code_simp
  have u: "urljoin offline_env ?base ?h = Inr ?h"
    by code_simp
  have n: "netloc offline_env ?h = Inr []"
    by code_simp
  have q1: "ascii ''http://['' \<in> set (anchor_hrefs ?sp2)"
    by code_simp
  have q2: "urljoin offline_env ?base (ascii ''http://['') = Inl ValueError"
    by code_simp
  from no_netloc_is_external
         [where e = offline_env and c = demo_config and sp = "?sp" and base = "?base"
            and ls = "?ls" and h = "?h" and u = "?h"]
       r p1 u n
  have e: "?h \<in> set (external ?ls)"
    and d: "\<forall>b. b \<noteq> External \<longrightarrow> ?h \<notin> set (bucket_urls b ?ls)"
    by blast+
  from no_netloc_is_external
         [where e = offline_env and c = demo_config and sp = "?sp2" and base = "?base"
            and h = "ascii ''http://[''" and x = ValueError]
       q1 q2
  have x: "\<exists>y. extract_links offline_env demo_config ?sp2 ?base = Inl y"
    by blast
  from d [rule_format, of Internal] d [rule_format, of Files_other] e x
  show ?thesis by simp
qed

text \<open>
  Claim C4 as stated fails: \<open>mailto:a@b.c\<close> has no network location, and it is not
  left out of the result; it appears in the bucket \<open>external\<close>.
\<close>

theorem no_netloc_not_excluded:
  "netloc offline_env (ascii ''mailto:a@b.c'') = Inr [] \<and>
   map_sum id external (extract_links offline_env demo_config
       [anchor ''mailto:a@b.c''] (ascii ''http://example.com/'')) = Inr [ascii ''mailto:a@b.c'']"
  by code_simp

section \<open>Properties of the crawler\<close>

lemma page_fetches_append [simp]:
  "page_fetches (s\<lparr>requests := requests s @ [(k, u)]\<rparr>) =
     (if k = Page_fetch then page_fetches s @ [u] else page_fetches s)"
  by (simp add: page_fetches_def)

lemma page_fetches_files_update [simp]: "page_fetches (s\<lparr>files := f\<rparr>) = page_fetches s"
  by (simp add: page_fetches_def)

lemma page_fetches_data_update [simp]: "page_fetches (s\<lparr>data := d\<rparr>) = page_fetches s"
  by (simp add: page_fetches_def)

lemma page_fetches_visited_update [simp]: "page_fetches (s\<lparr>visited_urls := v\<rparr>) = page_fetches s"
  by (simp add: page_fetches_def)

lemma same_crawl_refl [simp]: "same_crawl s s"
  by (simp add: same_crawl_def)

lemma same_crawl_trans: "same_crawl s s1 \<Longrightarrow> same_crawl s1 s2 \<Longrightarrow> same_crawl s s2"
  by (simp add: same_crawl_def)

lemma download_file_same: "same_crawl s (fst (download_file e s u t))"
  by (simp add: download_file_def session_get_def same_crawl_def Let_def
      split: sum.split option.split)

lemma extract_text_from_image_same: "same_crawl s (fst (extract_text_from_image e c s u))"
  by (simp add: extract_text_from_image_def session_get_def same_crawl_def Let_def
      split: sum.split option.split)

lemma lookup_pdf_extract_text:
  "lookup_global (ascii ''pdf_extract_text'') v = Inl (NameError (ascii ''pdf_extract_text''))"
  by (simp add: lookup_global_def module_globals_def ascii_def)

lemma extract_from_pdf_failure: "snd (extract_from_pdf e c s u) = pdf_failure"
  by (simp add: extract_from_pdf_def lookup_pdf_extract_text
      split: prod.split sum.split option.split)

lemma extract_from_pdf_same: "same_crawl s (fst (extract_from_pdf e c s u))"
proof -
  have d: "same_crawl (s\<lparr>requests := requests s @ [(Pdf_fetch, u)]\<rparr>)
             (fst (download_file e (s\<lparr>requests := requests s @ [(Pdf_fetch, u)]\<rparr>) u t))" for t
    by (rule download_file_same)
  have "same_crawl s (s\<lparr>requests := requests s @ [(Pdf_fetch, u)]\<rparr>)"
    by (simp add: same_crawl_def)
  then show ?thesis
    using d [of "ascii ''pdf''"]
    by (auto simp: extract_from_pdf_def session_get_def lookup_pdf_extract_text
        split: prod.split sum.split option.split intro: same_crawl_trans)
qed

lemma ocr_images_same: "same_crawl s (fst (ocr_images e c u s imgs))"
proof (induction imgs arbitrary: s)
  case Nil then show ?case by simp
next
  case (Cons img imgs)
  show ?case
    by (simp add: Let_def case_prod_beta Cons.IH
        same_crawl_trans [OF extract_text_from_image_same Cons.IH] split: sum.split)
qed


lemma pdf_entries_same:
  "(\<And>s u. same_crawl s (fst (extract s u))) \<Longrightarrow> same_crawl s (fst (pdf_entries extract s us))"
proof (induction us arbitrary: s)
  case Nil then show ?case by simp
next
  case (Cons u us)
  have a: "same_crawl s (fst (extract s u))" by (rule Cons.prems)
  have b: "same_crawl (fst (extract s u)) (fst (pdf_entries extract (fst (extract s u)) us))"
    by (rule Cons.IH) (rule Cons.prems)
  show ?case
    by (simp add: case_prod_beta same_crawl_trans [OF a b])
qed

lemma pdf_entries_empty:
  "(\<And>s u. pdf_result_text (snd (extract s u)) = None) \<Longrightarrow> snd (pdf_entries extract s us) = []"
proof (induction us arbitrary: s)
  case Nil then show ?case by simp
next
  case (Cons u us)
  have a: "pdf_result_text (snd (extract s u)) = None" by (rule Cons.prems)
  have b: "snd (pdf_entries extract (fst (extract s u)) us) = []"
    by (rule Cons.IH) (rule Cons.prems)
  show ?case
    by (simp add: case_prod_beta a b)
qed


lemma pdf_files_content_same:
  "same_crawl s (fst (pdf_files_content (extract_from_pdf e c) e' s ls))"
  unfolding pdf_files_content_def by (rule pdf_entries_same) (rule extract_from_pdf_same)

lemma pdf_files_content_empty:
  "snd (pdf_files_content (extract_from_pdf e c) e' s ls) = []"
  unfolding pdf_files_content_def
  by (rule pdf_entries_empty) (simp add: extract_from_pdf_failure pdf_failure_def)

lemma ocr_step_same: "same_crawl s (fst (ocr_step e c u s sp))"
  by (simp add: ocr_step_def ocr_images_same)

lemma visit_page_effect:
  "visited_urls (fst (visit_page e c s u)) = visited_urls s \<and>
   page_fetches (fst (visit_page e c s u)) = page_fetches s @ [u] \<and>
   (data (fst (visit_page e c s u)) = data s \<or>
    (\<exists>p. data (fst (visit_page e c s u)) = data s @ [p] \<and> page_url p = u \<and>
         files_content p = []))"
proof -
  let ?s1 = "s\<lparr>requests := requests s @ [(Page_fetch, u)]\<rparr>"
  have a: "same_crawl ?s1 (fst (ocr_step e c u ?s1 sp))" for sp
    by (rule ocr_step_same)
  have b: "same_crawl ?s1
      (fst (pdf_files_content (extract_from_pdf e c) e (fst (ocr_step e c u ?s1 sp)) ls))" for sp ls
    by (rule same_crawl_trans [OF a pdf_files_content_same])
  show ?thesis
    using a b
    by (simp add: visit_page_def session_get_def Let_def case_prod_beta same_crawl_def
        pdf_files_content_empty ocr_step_def [symmetric] split: sum.split)
qed

lemma scrape_invariant:
  assumes mark: "\<And>e c s u. I e c s \<Longrightarrow> \<not> skip_page c s u \<Longrightarrow>
      J e c (s\<lparr>visited_urls := set_add u (visited_urls s)\<rparr>) u"
    and visit: "\<And>e c s u. J e c s u \<Longrightarrow> I e c (fst (visit_page e c s u))"
  shows "scrape_page n e c s u = Some s' \<Longrightarrow> I e c s \<Longrightarrow> I e c s'"
    and "scrape_links n e c s us = Some s' \<Longrightarrow> I e c s \<Longrightarrow> I e c s'"
proof (induction n e c s u and n e c s us arbitrary: s' and s'
    rule: scrape_page_scrape_links.induct)
  case (1 e c s u)
  then show ?case by (auto split: if_splits)
next
  case (2 n e c s u)
  show ?case
  proof (cases "skip_page c s u")
    case True
    with "2.prems" show ?thesis by simp
  next
    case False
    let ?m = "s\<lparr>visited_urls := set_add u (visited_urls s)\<rparr>"
    obtain s1 follow where v: "visit_page e c ?m u = (s1, follow)"
      by (cases "visit_page e c ?m u")
    from "2.prems"(1) False v have l: "scrape_links n e c s1 follow = Some s'"
      by simp
    have "J e c ?m u" using "2.prems"(2) False by (rule mark)
    then have "I e c (fst (visit_page e c ?m u))" by (rule visit)
    then have "I e c s1" using v by simp
    with "2.IH" [OF False v [symmetric] l] show ?thesis .
  qed
next
  case (3 n e c s)
  then show ?case by simp
next
  case (4 n e c s link rest)
  from "4.prems"(1) obtain s1 where p: "scrape_page n e c s link = Some s1"
    and l: "scrape_links n e c s1 rest = Some s'"
    by (auto split: option.splits)
  have "I e c s1" using p "4.prems"(2) by (rule "4.IH"(1))
  with "4.IH"(2) [OF p l] show ?case .
qed

lemma scrape_page_grows:
  "scrape_page n e c s u = Some s' \<Longrightarrow> \<exists>new. visited_urls s' = visited_urls s @ new"
proof -
  let ?I = "\<lambda>(e::env) (c::config) (t::state). \<exists>new. visited_urls t = visited_urls s @ new"
  assume r: "scrape_page n e c s u = Some s'"
  have "?I e c s'"
  proof (rule scrape_invariant(1) [where I = ?I and J = "\<lambda>e c t u. ?I e c t", OF _ _ r])
    show "?I e c s" by simp
  next
    fix e c t u assume "?I e c t"
    then show "?I e c (t\<lparr>visited_urls := set_add u (visited_urls t)\<rparr>)"
      by (auto simp: set_add_def)
  next
    fix e c t u assume "?I e c t"
    then show "?I e c (fst (visit_page e c t u))"
      by (simp add: visit_page_effect)
  qed
  then show ?thesis .
qed

lemma scrape_returns:
  "max_pages c \<le> int (length (visited_urls s)) + int n \<Longrightarrow> \<exists>s'. scrape_page n e c s u = Some s'"
  "max_pages c \<le> int (length (visited_urls s)) + int n \<Longrightarrow> \<exists>s'. scrape_links n e c s us = Some s'"
proof (induction n e c s u and n e c s us rule: scrape_page_scrape_links.induct)
  case (1 e c s u)
  then show ?case by (simp add: skip_page_def)
next
  case (2 n e c s u)
  show ?case
  proof (cases "skip_page c s u")
    case True
    then show ?thesis by simp
  next
    case False
    let ?m = "s\<lparr>visited_urls := set_add u (visited_urls s)\<rparr>"
    obtain s1 follow where v: "visit_page e c ?m u = (s1, follow)"
      by (cases "visit_page e c ?m u")
    from False have "length (visited_urls ?m) = Suc (length (visited_urls s))"
      by (simp add: skip_page_def set_add_def)
    moreover have "visited_urls s1 = visited_urls ?m"
      using visit_page_effect [of e c ?m u] v by simp
    ultimately have "max_pages c \<le> int (length (visited_urls s1)) + int n"
      using "2.prems" by simp
    with "2.IH" [OF False v [symmetric]] show ?thesis
      using False v by simp
  qed
next
  case (3 n e c s)
  then show ?case by simp
next
  case (4 n e c s link rest)
  from "4.IH"(1) [OF "4.prems"] obtain s1 where p: "scrape_page n e c s link = Some s1" ..
  from scrape_page_grows [OF p] have "length (visited_urls s) \<le> length (visited_urls s1)"
    by auto
  with "4.prems" have "max_pages c \<le> int (length (visited_urls s1)) + int n"
    by simp
  with "4.IH"(2) [OF p] show ?case using p by simp
qed

lemma crawl_returns: "\<exists>s'. crawl e c = Some s'"
  unfolding crawl_def by (rule scrape_returns(1)) (simp add: init_state_def)

lemma within_cap_preserved:
  "scrape_page n e c s u = Some s' \<Longrightarrow> within_cap c s \<Longrightarrow> within_cap c s'"
proof (rule scrape_invariant(1)
    [where I = "\<lambda>e c s. within_cap c s" and J = "\<lambda>e c s u. within_cap c s"])
  fix e :: env and c s u
  assume "within_cap c s" "\<not> skip_page c s u"
  then show "within_cap c (s\<lparr>visited_urls := set_add u (visited_urls s)\<rparr>)"
    by (simp add: within_cap_def skip_page_def set_add_def)
next
  fix e c s u
  assume "within_cap c s"
  then show "within_cap c (fst (visit_page e c s u))"
    by (simp add: within_cap_def visit_page_effect)
qed

text \<open>
  Claim C1, as the code has it. For every cap \<open>max_pages\<close> that is not negative, the
  set \<open>visited_urls\<close> has at most \<open>max_pages\<close> members at every point of a crawl.
  \<open>scrape_page\<close> returns the state it was given whenever the URL is already visited or
  \<open>len(visited_urls) >= max_pages\<close>; the only statement that changes the set, the
  \<open>add\<close> after a failed test, keeps it within the cap; the rest of the page's
  processing leaves the set alone; and a call that starts within the cap ends within
  it, with a set that has only grown. So a crawl, which starts from the empty set,
  returns (the recursion is never deeper than \<open>max_pages\<close>) and stays within the cap
  throughout.
\<close>

theorem visited_within_max_pages:
  "(skip_page c s u \<longrightarrow> scrape_page n e c s u = Some s) \<and>
   (within_cap c s \<longrightarrow> \<not> skip_page c s u \<longrightarrow>
      within_cap c (s\<lparr>visited_urls := set_add u (visited_urls s)\<rparr>)) \<and>
   visited_urls (fst (visit_page e c s u)) = visited_urls s \<and>
   (within_cap c s \<longrightarrow> scrape_page n e c s u = Some s' \<longrightarrow>
      within_cap c s' \<and> (\<exists>new. visited_urls s' = visited_urls s @ new)) \<and>
   (0 \<le> max_pages c \<longrightarrow> (\<exists>t. crawl e c = Some t \<and> within_cap c t))"
proof (intro conjI impI)
  assume "skip_page c s u"
  then show "scrape_page n e c s u = Some s" by (cases n) simp_all
next
  assume "within_cap c s" "\<not> skip_page c s u"
  then show "within_cap c (s\<lparr>visited_urls := set_add u (visited_urls s)\<rparr>)"
    by (simp add: within_cap_def skip_page_def set_add_def)
next
  show "visited_urls (fst (visit_page e c s u)) = visited_urls s"
    by (simp add: visit_page_effect)
next
  assume "within_cap c s" "scrape_page n e c s u = Some s'"
  then show "within_cap c s'" using within_cap_preserved by blast
next
  assume "scrape_page n e c s u = Some s'"
  then show "\<exists>new. visited_urls s' = visited_urls s @ new" by (rule scrape_page_grows)
next
  assume m: "0 \<le> max_pages c"
  obtain t where t: "crawl e c = Some t" using crawl_returns by blast
  have "within_cap c init_state" using m by (simp add: within_cap_def init_state_def)
  with t have "within_cap c t" unfolding crawl_def by (rule within_cap_preserved)
  with t show "\<exists>t. crawl e c = Some t \<and> within_cap c t" by blast
qed

text \<open>
  On the example site with \<open>max_pages = 2\<close>: a call for the visited root URL changes
  nothing, and the crawl returns within the cap.
\<close>

theorem visited_within_max_pages_witness:
  "scrape_page 1 site_env site_config root_visited (ascii ''http://example.com/'') =
     Some root_visited \<and>
   (\<exists>t. crawl site_env site_config = Some t \<and> within_cap site_config t)"
proof -
  have a: "skip_page site_config root_visited (ascii ''http://example.com/'')"
    by code_simp
  have b: "0 \<le> max_pages site_config"
    by code_simp
  from visited_within_max_pages
         [where c = site_config and s = root_visited and u = "ascii ''http://example.com/''"
            and n = 1 and e = site_env]
  show ?thesis using a b by blast
qed

text \<open>
  Claim C1 as stated fails for a negative cap: with \<open>max_pages = -1\<close> the first call
  of \<open>scrape_page\<close> returns at once, and the empty set, with its 0 members, exceeds the
  cap.
\<close>

theorem negative_cap_exceeded:
  "crawl offline_env (demo_config\<lparr>max_pages := - 1\<rparr>) = Some init_state \<and>
   max_pages (demo_config\<lparr>max_pages := - 1\<rparr>) < int (length (visited_urls init_state))"
  by (simp add: crawl_def skip_page_def init_state_def)

lemma fetched_once_preserved:
  "scrape_page n e c s u = Some s' \<Longrightarrow> fetched_once s \<Longrightarrow> fetched_once s'"
proof (rule scrape_invariant(1)
    [where I = "\<lambda>e c s. fetched_once s"
       and J = "\<lambda>e c s u. fetched_once s \<and> u \<in> set (visited_urls s) \<and> u \<notin> set (page_fetches s)"])
  fix e :: env and c s u
  assume "fetched_once s" "\<not> skip_page c s u"
  then show "fetched_once (s\<lparr>visited_urls := set_add u (visited_urls s)\<rparr>) \<and>
      u \<in> set (visited_urls (s\<lparr>visited_urls := set_add u (visited_urls s)\<rparr>)) \<and>
      u \<notin> set (page_fetches (s\<lparr>visited_urls := set_add u (visited_urls s)\<rparr>))"
    by (auto simp: fetched_once_def skip_page_def)
next
  fix e c s u
  assume "fetched_once s \<and> u \<in> set (visited_urls s) \<and> u \<notin> set (page_fetches s)"
  then show "fetched_once (fst (visit_page e c s u))"
    by (auto simp: fetched_once_def visit_page_effect)
qed

lemma fetches_are_visits:
  "scrape_page n e c s u = Some s' \<Longrightarrow> page_fetches s = visited_urls s \<Longrightarrow>
     page_fetches s' = visited_urls s'"
proof (rule scrape_invariant(1)
    [where I = "\<lambda>e c s. page_fetches s = visited_urls s"
       and J = "\<lambda>e c s u. page_fetches s @ [u] = visited_urls s"])
  fix e :: env and c s u
  assume "page_fetches s = visited_urls s" "\<not> skip_page c s u"
  then show "page_fetches (s\<lparr>visited_urls := set_add u (visited_urls s)\<rparr>) @ [u] =
      visited_urls (s\<lparr>visited_urls := set_add u (visited_urls s)\<rparr>)"
    by (simp add: skip_page_def set_add_def)
next
  fix e c s u
  assume "page_fetches s @ [u] = visited_urls s"
  then show "page_fetches (fst (visit_page e c s u)) = visited_urls (fst (visit_page e c s u))"
    by (simp add: visit_page_effect)
qed

text \<open>
  Claim C2. \<open>scrape_page\<close> requests every URL at most once in a crawl. A call for a
  URL that is already in \<open>visited_urls\<close> returns the state unchanged, so it makes no
  request; a call that goes on first adds the URL to \<open>visited_urls\<close> and then makes
  exactly one request for it, recorded whether or not it succeeds; and a call keeps the
  list of page requests free of repetitions and inside \<open>visited_urls\<close>. In a crawl the
  page requests are the visited URLs, each once, in the order in which they were added.
  (The requests for images and PDF files, made by the extraction functions, are not
  page requests; they are recorded under their own \<open>site\<close>.)
\<close>

theorem page_fetched_at_most_once:
  "(u \<in> set (visited_urls s) \<longrightarrow> scrape_page n e c s u = Some s) \<and>
   page_fetches (fst (visit_page e c (s\<lparr>visited_urls := set_add u (visited_urls s)\<rparr>) u)) =
     page_fetches s @ [u] \<and>
   (fetched_once s \<longrightarrow> scrape_page n e c s u = Some s' \<longrightarrow> fetched_once s') \<and>
   (\<exists>t. crawl e c = Some t \<and> distinct (page_fetches t) \<and> page_fetches t = visited_urls t)"
proof (intro conjI impI)
  assume "u \<in> set (visited_urls s)"
  then have "skip_page c s u" by (simp add: skip_page_def)
  then show "scrape_page n e c s u = Some s" by (cases n) simp_all
next
  show "page_fetches (fst (visit_page e c (s\<lparr>visited_urls := set_add u (visited_urls s)\<rparr>) u)) =
     page_fetches s @ [u]"
    by (simp add: visit_page_effect)
next
  assume "fetched_once s" "scrape_page n e c s u = Some s'"
  then show "fetched_once s'" using fetched_once_preserved by blast
next
  obtain t where t: "crawl e c = Some t" using crawl_returns by blast
  have "fetched_once init_state"
    by (simp add: fetched_once_def init_state_def page_fetches_def)
  with t have "fetched_once t" unfolding crawl_def by (rule fetched_once_preserved)
  moreover have "page_fetches init_state = visited_urls init_state"
    by (simp add: init_state_def page_fetches_def)
  with t have "page_fetches t = visited_urls t" unfolding crawl_def by (rule fetches_are_visits)
  ultimately show "\<exists>t. crawl e c = Some t \<and> distinct (page_fetches t) \<and>
      page_fetches t = visited_urls t"
    using t by (auto simp: fetched_once_def)
qed

text \<open>On the example site: the visited root URL is not requested again.\<close>

theorem page_fetched_at_most_once_witness:
  "scrape_page 1 site_env site_config root_visited (ascii ''http://example.com/'') =
     Some root_visited \<and>
   fetched_once root_visited \<and>
   (\<exists>t. crawl site_env site_config = Some t \<and> distinct (page_fetches t) \<and>
        page_fetches t = visited_urls t)"
proof -
  have a: "ascii ''http://example.com/'' \<in> set (visited_urls root_visited)"
    by code_simp
  have b: "fetched_once root_visited"
    by code_simp
  from page_fetched_at_most_once
         [where c = site_config and s = root_visited and u = "ascii ''http://example.com/''"
            and n = 1 and e = site_env and s' = root_visited]
  show ?thesis using a b by blast
qed

text \<open>
  With the network down, the root URL is marked as visited and requested once, and no
  page is recorded.
\<close>

lemma failed_fetch_still_visited:
  "map_option visited_urls (crawl offline_env demo_config) = Some [ascii ''http://example.com/''] \<and>
   map_option page_fetches (crawl offline_env demo_config) = Some [ascii ''http://example.com/''] \<and>
   map_option (\<lambda>s. length (data s)) (crawl offline_env demo_config) = Some 0"
  by code_simp

section \<open>Properties of the PDF extraction\<close>

lemma files_content_empty_preserved:
  "scrape_page n e c s u = Some s' \<Longrightarrow> \<forall>p\<in>set (data s). files_content p = [] \<Longrightarrow>
     \<forall>p\<in>set (data s'). files_content p = []"
proof (rule scrape_invariant(1)
    [where I = "\<lambda>e c s. \<forall>p\<in>set (data s). files_content p = []"
       and J = "\<lambda>e c s u. \<forall>p\<in>set (data s). files_content p = []"])
  fix e :: env and c :: config and s :: state and u :: pystr
  assume "\<forall>p\<in>set (data s). files_content p = []"
  then show "\<forall>p\<in>set (data (s\<lparr>visited_urls := set_add u (visited_urls s)\<rparr>)). files_content p = []"
    by simp
next
  fix e :: env and c :: config and s :: state and u :: pystr
  assume a: "\<forall>p\<in>set (data s). files_content p = []"
  from visit_page_effect [of e c s u]
  have "data (fst (visit_page e c s u)) = data s \<or>
    (\<exists>p. data (fst (visit_page e c s u)) = data s @ [p] \<and> page_url p = u \<and> files_content p = [])"
    by blast
  with a show "\<forall>p\<in>set (data (fst (visit_page e c s u))). files_content p = []"
    by auto
qed

lemma crawl_files_content_empty:
  "crawl e c = Some t \<Longrightarrow> p \<in> set (data t) \<Longrightarrow> files_content p = []"
proof -
  assume t: "crawl e c = Some t" and p: "p \<in> set (data t)"
  have "\<forall>p\<in>set (data init_state). files_content p = []"
    by (simp add: init_state_def)
  with t have "\<forall>p\<in>set (data t). files_content p = []"
    unfolding crawl_def by (rule files_content_empty_preserved)
  with p show ?thesis by blast
qed

lemma run_files_content_empty:
  "\<exists>ps. run e c = Some ps \<and> (\<forall>p\<in>set ps. files_content p = [])"
proof -
  obtain t where t: "crawl e c = Some t" using crawl_returns by blast
  then have "\<forall>p\<in>set (data t). files_content p = []"
    using crawl_files_content_empty by blast
  with t show ?thesis by (simp add: run_def)
qed

lemma extract_from_pdf_download:
  assumes "download_documents c"
    and "http_get e (length (requests s)) u = Inr resp"
    and "content_length e resp = Some n" and "n \<le> max_file_size c"
    and "http_get e (Suc (length (requests s))) u = Inr resp'" and "status_ok resp'"
  shows "files (fst (extract_from_pdf e c s u)) (pdf_path e (length (visited_urls s))) =
     Some (fst (body resp'))"
  using assms
  by (simp add: extract_from_pdf_def download_file_def session_get_def pdf_path_def
      lookup_pdf_extract_text Let_def split: option.split)

text \<open>
  Claim C7. \<open>extract_from_pdf\<close> returns \<open>{'text': None, 'local_path': None}\<close> for every
  URL, in every environment and state: the name \<open>pdf_extract_text\<close> is not bound in the
  module, the call raises \<open>NameError\<close>, and the handler returns the failure value, as it
  does for every failure before that line. So every page that \<open>run\<close> returns has an
  empty \<open>files_content\<close>. All the same, when \<open>download_documents\<close> is set and the two
  requests succeed within the size limit, \<open>download_file\<close> has written the bytes to
  \<open>downloaded_documents\<close> before the failure.
\<close>

theorem extract_from_pdf_always_fails:
  "snd (extract_from_pdf e c s u) = pdf_failure \<and>
   (\<exists>ps. run e c = Some ps \<and> (\<forall>p\<in>set ps. files_content p = [])) \<and>
   (download_documents c \<longrightarrow> http_get e (length (requests s)) u = Inr resp \<longrightarrow>
    content_length e resp = Some n \<longrightarrow> n \<le> max_file_size c \<longrightarrow>
    http_get e (Suc (length (requests s))) u = Inr resp' \<longrightarrow> status_ok resp' \<longrightarrow>
      files (fst (extract_from_pdf e c s u)) (pdf_path e (length (visited_urls s))) =
        Some (fst (body resp')))"
proof (intro conjI impI)
  show "snd (extract_from_pdf e c s u) = pdf_failure"
    by (rule extract_from_pdf_failure)
next
  show "\<exists>ps. run e c = Some ps \<and> (\<forall>p\<in>set ps. files_content p = [])"
    by (rule run_files_content_empty)
next
  assume "download_documents c" "http_get e (length (requests s)) u = Inr resp"
    "content_length e resp = Some n" "n \<le> max_file_size c"
    "http_get e (Suc (length (requests s))) u = Inr resp'" "status_ok resp'"
  then show "files (fst (extract_from_pdf e c s u)) (pdf_path e (length (visited_urls s))) =
        Some (fst (body resp'))"
    by (rule extract_from_pdf_download)
qed

text \<open>
  On the example site: the PDF is reported as failed, and its bytes are on disk.
\<close>

theorem extract_from_pdf_always_fails_witness:
  "snd (extract_from_pdf site_env site_config init_state (ascii ''http://example.com/doc.pdf'')) =
     pdf_failure \<and>
   files (fst (extract_from_pdf site_env site_config init_state
            (ascii ''http://example.com/doc.pdf'')))
     (ascii ''downloaded_documents/document_0_pdf.pdf'') = Some [37, 80, 68]"
proof -
  let ?u = "ascii ''http://example.com/doc.pdf''"
  let ?r = "file_response ''application/pdf'' [37, 80, 68]"
  have h1: "download_documents site_config"
    by code_simp
  have h2: "http_get site_env (length (requests init_state)) ?u = Inr ?r"
    by (simp add: site_env_def demo_env_def site_net_def ascii_def)
  have h3: "content_length site_env ?r = Some 3"
    by code_simp
  have h4: "(3::int) \<le> max_file_size site_config"
    by code_simp
  have h5: "http_get site_env (Suc (length (requests init_state))) ?u = Inr ?r"
    by (simp add: site_env_def demo_env_def site_net_def ascii_def)
  have h6: "status_ok ?r"
    by code_simp
  have p: "pdf_path site_env (length (visited_urls init_state)) =
      ascii ''downloaded_documents/document_0_pdf.pdf''"
    by code_simp
  have b: "fst (body ?r) = [37, 80, 68]"
    by code_simp
  from extract_from_pdf_always_fails
         [where e = site_env and c = site_config and s = init_state and u = "?u"
            and resp = "?r" and n = 3 and resp' = "?r"]
  show ?thesis using h1 h2 h3 h4 h5 h6 unfolding p b by blast
qed

lemma pdf_entries_length: "length (snd (pdf_entries extract s us)) \<le> length us"
proof (induction us arbitrary: s)
  case Nil then show ?case by simp
next
  case (Cons u us)
  have "length (snd (pdf_entries extract (fst (extract s u)) us)) \<le> length us"
    by (rule Cons.IH)
  then show ?case
    by (simp add: case_prod_beta split: option.split)
qed

lemma pdf_entries_content:
  "en \<in> set (snd (pdf_entries extract s us)) \<Longrightarrow>
     \<exists>s0 t. file_url en \<in> set us \<and> pdf_result_text (snd (extract s0 (file_url en))) = Some t \<and>
        t \<noteq> [] \<and> file_type en = ascii ''PDF'' \<and>
        local_path en = pdf_result_local_path (snd (extract s0 (file_url en))) \<and>
        content en = (if length t \<le> 10000 then t else take 10000 t @ ascii ''...'')"
proof (induction us arbitrary: s)
  case Nil then show ?case by simp
next
  case (Cons u us)
  let ?r = "snd (extract s u)"
  let ?rest = "snd (pdf_entries extract (fst (extract s u)) us)"
  let ?entry = "\<lambda>t. \<lparr>file_type = ascii ''PDF'', file_url = u,
              content = (if length t > 10000 then take 10000 t @ ascii ''...'' else t),
              local_path = pdf_result_local_path ?r\<rparr>"
  let ?head = "case pdf_result_text ?r of None \<Rightarrow> [] | Some t \<Rightarrow> if t \<noteq> [] then [?entry t] else []"
  have "snd (pdf_entries extract s (u # us)) = ?head @ ?rest"
    by (simp add: case_prod_beta)
  with Cons.prems have "en \<in> set ?head \<or> en \<in> set ?rest" by simp
  then show ?case
  proof
    assume h: "en \<in> set ?head"
    then obtain t where t: "pdf_result_text ?r = Some t"
      by (cases "pdf_result_text ?r") auto
    with h have ne: "t \<noteq> []" and en: "en = ?entry t"
      by (auto split: if_splits)
    have "file_url en \<in> set (u # us) \<and> pdf_result_text (snd (extract s (file_url en))) = Some t \<and>
        t \<noteq> [] \<and> file_type en = ascii ''PDF'' \<and>
        local_path en = pdf_result_local_path (snd (extract s (file_url en))) \<and>
        content en = (if length t \<le> 10000 then t else take 10000 t @ ascii ''...'')"
      using t ne by (simp add: en)
    then show ?thesis by blast
  next
    assume "en \<in> set ?rest"
    from Cons.IH [OF this] show ?thesis by auto
  qed
qed

text \<open>
  Claim C8. \<open>files_content\<close> has at most three entries, whatever the extraction
  returns: the loop runs over the first three PDF links. Every entry belongs to one of
  these links, and its content is the extracted text when that has at most 10000
  characters, and its first 10000 characters followed by \<open>...\<close> otherwise. The pages
  that \<open>run\<close> returns have at most three entries as well.
\<close>

theorem files_content_capped:
  "length (snd (pdf_files_content extract e s ls)) \<le> 3 \<and>
   (\<forall>en\<in>set (snd (pdf_files_content extract e s ls)).
      \<exists>s0 t. file_url en \<in> set (take 3 (set_order e (files_pdf ls))) \<and>
         pdf_result_text (snd (extract s0 (file_url en))) = Some t \<and>
         content en = (if length t \<le> 10000 then t else take 10000 t @ ascii ''...'')) \<and>
   (\<exists>ps. run e c = Some ps \<and> (\<forall>p\<in>set ps. length (files_content p) \<le> 3))"
proof (intro conjI ballI)
  have "length (snd (pdf_files_content extract e s ls)) \<le> length (take 3 (set_order e (files_pdf ls)))"
    unfolding pdf_files_content_def by (rule pdf_entries_length)
  then show "length (snd (pdf_files_content extract e s ls)) \<le> 3" by simp
next
  fix en assume "en \<in> set (snd (pdf_files_content extract e s ls))"
  from pdf_entries_content [OF this [unfolded pdf_files_content_def]]
  show "\<exists>s0 t. file_url en \<in> set (take 3 (set_order e (files_pdf ls))) \<and>
         pdf_result_text (snd (extract s0 (file_url en))) = Some t \<and>
         content en = (if length t \<le> 10000 then t else take 10000 t @ ascii ''...'')"
    by blast
next
  obtain ps where "run e c = Some ps" "\<forall>p\<in>set ps. files_content p = []"
    using run_files_content_empty by blast
  then show "\<exists>ps. run e c = Some ps \<and> (\<forall>p\<in>set ps. length (files_content p) \<le> 3)"
    by auto
qed

text \<open>
  With an extraction that succeeds and four PDF links: three entries at most, and the
  entry of the first link holds its text.
\<close>

theorem files_content_capped_witness:
  "length (snd (pdf_files_content demo_extract offline_env init_state four_pdfs)) \<le> 3 \<and>
   (\<exists>s0 t. ascii ''a.pdf'' \<in> set (take 3 (set_order offline_env (files_pdf four_pdfs))) \<and>
      pdf_result_text (snd (demo_extract s0 (ascii ''a.pdf''))) = Some t \<and>
      ascii ''text of a.pdf'' = (if length t \<le> 10000 then t else take 10000 t @ ascii ''...''))"
proof -
  let ?en = "\<lparr>file_type = ascii ''PDF'', file_url = ascii ''a.pdf'',
               content = ascii ''text of a.pdf'', local_path = None\<rparr>"
  have m: "?en \<in> set (snd (pdf_files_content demo_extract offline_env init_state four_pdfs))"
    by code_simp
  from files_content_capped
         [of demo_extract offline_env init_state four_pdfs demo_config]
  have l: "length (snd (pdf_files_content demo_extract offline_env init_state four_pdfs)) \<le> 3"
    and q: "\<forall>en\<in>set (snd (pdf_files_content demo_extract offline_env init_state four_pdfs)).
      \<exists>s0 t. file_url en \<in> set (take 3 (set_order offline_env (files_pdf four_pdfs))) \<and>
         pdf_result_text (snd (demo_extract s0 (file_url en))) = Some t \<and>
         content en = (if length t \<le> 10000 then t else take 10000 t @ ascii ''...'')"
    by blast+
  from l q [rule_format, OF m] show ?thesis by simp
qed

section \<open>The temporary image file\<close>

text \<open>
  When the OCR call returns, \<open>os.remove\<close> has deleted the temporary file: this is the
  path the claim describes.
\<close>

lemma ocr_success_removes_temp_file:
  assumes "ocr_enabled c"
    and "http_get e (length (requests s)) img_url = Inr resp" and "status_ok resp"
    and "content_length e resp = Some n" and "n \<le> max_file_size c"
    and "contains (ascii ''image'') (header_get resp (ascii ''content-type''))"
    and "snd (body resp) = None"
    and "image_to_string e (Suc (length (requests s))) (fst (body resp)) = Inr txt"
  shows "files (fst (extract_text_from_image e c s img_url))
           (path_join e (ascii ''temp_images'') (basename e img_url)) = None"
  using assms
  by (simp add: extract_text_from_image_def session_get_def Let_def)

text \<open>
  When the OCR call raises, control passes to the handler and the file stays on disk.
\<close>

lemma ocr_exception_keeps_temp_file:
  assumes "ocr_enabled c"
    and "http_get e (length (requests s)) img_url = Inr resp" and "status_ok resp"
    and "content_length e resp = Some n" and "n \<le> max_file_size c"
    and "contains (ascii ''image'') (header_get resp (ascii ''content-type''))"
    and "snd (body resp) = None"
    and "image_to_string e (Suc (length (requests s))) (fst (body resp)) = Inl x"
  shows "files (fst (extract_text_from_image e c s img_url))
           (path_join e (ascii ''temp_images'') (basename e img_url)) = Some (fst (body resp))"
  using assms
  by (simp add: extract_text_from_image_def session_get_def Let_def)

text \<open>
  Claim C5 says that the temporary image file is deleted after the OCR step whether
  OCR succeeds or fails. On the example site the image \<open>pic.png\<close> is downloaded to
  \<open>temp_images/pic.png\<close> and the OCR call raises: \<open>extract_text_from_image\<close> returns the
  error message, and the file is still there.
\<close>

theorem ocr_exception_leaves_temp_file:
  "snd (extract_text_from_image site_env site_config init_state
          (ascii ''http://example.com/pic.png'')) = msg_image_error \<and>
   files (fst (extract_text_from_image site_env site_config init_state
                 (ascii ''http://example.com/pic.png'')))
     (ascii ''temp_images/pic.png'') = Some [137, 80, 78]"
  by code_simp

section \<open>Properties of the page text\<close>

lemma decompose_tag:
  "nd' \<in> set (concat (map descendants (decompose tags nd))) \<Longrightarrow> t \<in> set tags \<Longrightarrow>
     tag_name nd' \<noteq> Some t"
proof (induction nd arbitrary: nd')
  case (Str k x) then show ?case by auto
next
  case (Element n a cs)
  show ?case
  proof (cases "n \<in> set tags")
    case True
    with Element.prems show ?thesis by simp
  next
    case False
    with Element.prems(1)
    have "nd' = Element n a (concat (map (decompose tags) cs)) \<or>
      (\<exists>c\<in>set cs. nd' \<in> set (concat (map descendants (decompose tags c))))"
      by auto
    then show ?thesis
    proof
      assume "nd' = Element n a (concat (map (decompose tags) cs))"
      with False Element.prems(2) show ?thesis by auto
    next
      assume "\<exists>c\<in>set cs. nd' \<in> set (concat (map descendants (decompose tags c)))"
      then obtain c where "c \<in> set cs" "nd' \<in> set (concat (map descendants (decompose tags c)))"
        by blast
      then show ?thesis using Element.IH Element.prems(2) by blast
    qed
  qed
qed

lemma decompose_strings:
  "concat (map strings (decompose tags nd)) = strings_outside tags nd"
proof (induction nd)
  case (Str k x) then show ?case by simp
next
  case (Element n a cs)
  have "concat (map strings (concat (map (decompose tags) cs))) =
      concat (map (\<lambda>c. concat (map strings (decompose tags c))) cs)"
    by (induction cs) simp_all
  also have "\<dots> = concat (map (strings_outside tags) cs)"
    using Element.IH by (simp cong: map_cong)
  finally show ?case by simp
qed

lemma decompose_all_strings:
  "soup_strings (decompose_all tags sp) = concat (map (strings_outside tags) sp)"
proof -
  have "concat (map strings (concat (map (decompose tags) sp))) =
      concat (map (\<lambda>c. concat (map strings (decompose tags c))) sp)"
    by (induction sp) simp_all
  then show ?thesis
    by (simp add: soup_strings_def decompose_all_def decompose_strings)
qed

lemma strings_outside_remaining:
  "strings_outside tags nd =
     map snd (filter (\<lambda>kt. interesting (fst kt)) (remaining_strings tags nd))"
proof (induction nd)
  case (Str k x) then show ?case by simp
next
  case (Element n a cs)
  have "concat (map (strings_outside tags) cs) =
      concat (map (\<lambda>c. map snd (filter (\<lambda>kt. interesting (fst kt)) (remaining_strings tags c))) cs)"
    using Element.IH by (simp cong: map_cong)
  also have "\<dots> = map snd (filter (\<lambda>kt. interesting (fst kt))
      (concat (map (remaining_strings tags) cs)))"
    by (induction cs) simp_all
  finally show ?case by simp
qed

lemma soup_strings_remaining:
  "concat (map (strings_outside tags) sp) =
     map snd (filter (\<lambda>kt. interesting (fst kt)) (concat (map (remaining_strings tags) sp)))"
  by (induction sp) (simp_all add: strings_outside_remaining)

lemma split_char_append:
  "split_char d (x @ d # r) = split_char d x @ split_char d r"
proof (induction x)
  case Nil then show ?case by simp
next
  case (Cons c x)
  obtain z zs where z: "split_char d x = z # zs"
    using split_char_nonempty [of d x] by (cases "split_char d x") auto
  with Cons show ?case by simp
qed

lemma split_join:
  "xs \<noteq> [] \<Longrightarrow> split_char d (join_char d xs) = concat (map (split_char d) xs)"
  by (induction d xs rule: join_char.induct) (simp_all add: split_char_append)

lemma main_text_lines:
  "main_text sp =
     join_char 10 (filter (\<lambda>line. strip line \<noteq> [])
       (concat (map (split_char 10) (filter (\<lambda>t. t \<noteq> []) (map strip (soup_strings sp))))))"
proof (cases "filter (\<lambda>t. t \<noteq> []) (map strip (soup_strings sp)) = []")
  case True
  then show ?thesis by (simp add: main_text_def get_text_def strip_def)
next
  case False
  then show ?thesis by (simp add: main_text_def get_text_def split_join)
qed

text \<open>
  Claim C9, as the code has it. Before the text is extracted, every \<open>script\<close>,
  \<open>style\<close>, \<open>iframe\<close> and \<open>noscript\<close> element is cut out of the parsed page with all
  that is below it: no such element is left, and the removed subtrees contribute
  nothing. Of the strings that remain, \<open>get_text\<close> takes those of class
  \<open>NavigableString\<close> or \<open>CData\<close>, in document order; it skips comments and the text
  inside \<open>template\<close>, \<open>rt\<close> and \<open>rp\<close> elements, which has a class of its own. The
  visible text is made of the strings taken (each stripped, the empty ones dropped):
  their lines that are not blank, in order, joined by a newline.
\<close>

theorem removed_tags_not_in_text:
  "(\<forall>nd\<in>set (soup_nodes (decompose_all removed_tags sp)).
      \<forall>t\<in>set removed_tags. tag_name nd \<noteq> Some t) \<and>
   soup_strings (decompose_all removed_tags sp) =
     map snd (filter (\<lambda>kt. interesting (fst kt))
       (concat (map (remaining_strings removed_tags) sp))) \<and>
   main_text (decompose_all removed_tags sp) =
     join_char 10 (filter (\<lambda>line. strip line \<noteq> [])
       (concat (map (split_char 10)
          (filter (\<lambda>t. t \<noteq> [])
             (map strip (map snd (filter (\<lambda>kt. interesting (fst kt))
                (concat (map (remaining_strings removed_tags) sp)))))))))"
proof (intro conjI ballI)
  fix nd t
  assume "nd \<in> set (soup_nodes (decompose_all removed_tags sp))" "t \<in> set removed_tags"
  then obtain c where "c \<in> set sp"
    "nd \<in> set (concat (map descendants (decompose removed_tags c)))"
    by (auto simp: soup_nodes_def decompose_all_def)
  with \<open>t \<in> set removed_tags\<close> show "tag_name nd \<noteq> Some t"
    using decompose_tag by blast
next
  show "soup_strings (decompose_all removed_tags sp) =
     map snd (filter (\<lambda>kt. interesting (fst kt))
       (concat (map (remaining_strings removed_tags) sp)))"
    by (simp only: decompose_all_strings soup_strings_remaining)
next
  show "main_text (decompose_all removed_tags sp) =
     join_char 10 (filter (\<lambda>line. strip line \<noteq> [])
       (concat (map (split_char 10)
          (filter (\<lambda>t. t \<noteq> [])
             (map strip (map snd (filter (\<lambda>kt. interesting (fst kt))
                (concat (map (remaining_strings removed_tags) sp)))))))))"
    by (simp only: main_text_lines decompose_all_strings soup_strings_remaining)
qed

text \<open>
  On the home page of the example site: the title element is kept, the script is gone,
  and the two text nodes outside it remain.
\<close>

theorem removed_tags_not_in_text_witness:
  "Element (ascii ''title'') [] [Text (ascii ''Home'')]
     \<in> set (soup_nodes (decompose_all removed_tags (site_parser (ascii ''home'')))) \<and>
   ascii ''script'' \<in> set removed_tags \<and>
   tag_name (Element (ascii ''title'') [] [Text (ascii ''Home'')]) \<noteq> Some (ascii ''script'') \<and>
   soup_strings (decompose_all removed_tags (site_parser (ascii ''home''))) =
     [ascii ''Home'', ascii '' Welcome '']"
proof -
  let ?sp = "site_parser (ascii ''home'')"
  let ?nd = "Element (ascii ''title'') [] [Text (ascii ''Home'')]"
  have a: "?nd \<in> set (soup_nodes (decompose_all removed_tags ?sp))"
    by code_simp
  have b: "ascii ''script'' \<in> set removed_tags"
    by code_simp
  have c: "map snd (filter (\<lambda>kt. interesting (fst kt))
      (concat (map (remaining_strings removed_tags) ?sp))) = [ascii ''Home'', ascii '' Welcome '']"
    by code_simp
  from removed_tags_not_in_text [of ?sp]
  have "\<forall>nd\<in>set (soup_nodes (decompose_all removed_tags ?sp)).
      \<forall>t\<in>set removed_tags. tag_name nd \<noteq> Some t"
    and "soup_strings (decompose_all removed_tags ?sp) =
      map snd (filter (\<lambda>kt. interesting (fst kt))
        (concat (map (remaining_strings removed_tags) ?sp)))"
    by blast+
  with a b c show ?thesis by force
qed

text \<open>
  Claim C9 as stated fails: on a page with a ruby annotation and a template, the
  strings inside the \<open>rt\<close> and \<open>template\<close> elements remain after the removal, and yet
  the visible text is \<open>K\<close>, newline, \<open>end\<close>: it is not all remaining text nodes.
\<close>

theorem template_text_not_visible:
  "map snd (concat (map (remaining_strings removed_tags) ruby_page)) =
     [[75], [107, 97, 110], [116, 112, 108], [101, 110, 100]] \<and>
   main_text (decompose_all removed_tags ruby_page) = [75, 10, 101, 110, 100]"
  by code_simp

section \<open>Properties of the answer engine\<close>

lemma answer_from_questions: "map fst (answer_from client k summary questions) = questions"
  by (induction questions arbitrary: k) simp_all

lemma answer_from_nth:
  "i < length questions \<Longrightarrow>
     answer_from client k summary questions ! i =
       (questions ! i, call_llm client (k + i) (question_prompt summary (questions ! i)))"
proof (induction questions arbitrary: k i)
  case Nil then show ?case by simp
next
  case (Cons q qs)
  then show ?case by (cases i) simp_all
qed

lemma answer_from_length: "length (answer_from client k summary questions) = length questions"
  by (induction questions arbitrary: k) simp_all

lemma concat_map_nth:
  "i < length xs \<Longrightarrow>
     concat (map f xs) = concat (map f (take i xs)) @ f (xs ! i) @ concat (map f (drop (Suc i) xs))"
proof -
  assume "i < length xs"
  then have "xs = take i xs @ xs ! i # drop (Suc i) xs"
    by (rule id_take_nth_drop)
  then have "concat (map f xs) = concat (map f (take i xs @ xs ! i # drop (Suc i) xs))"
    by simp
  then show ?thesis by simp
qed

text \<open>
  Claim C10. Whatever the client does for the other questions, also when it raises for
  one of them, \<open>answer_questions\<close> returns one pair per question, in the order of the
  questions, and the i-th pair holds the stripped answer to the i-th question whenever
  the i-th call succeeds. \<open>save_answers\<close> writes to the file, for every pair in that
  order, the question after its label, the answer after its label, and the separator
  line; so the text of each question whose call succeeded stands in the file with its
  answer, after the texts of the earlier pairs and before those of the later ones. (The
  question whose call raised is paired with \<open>None\<close>, written as the text \<open>None\<close>.)
\<close>

theorem other_answers_survive:
  "(let written = (\<lambda>qa. [1042, 1086, 1087, 1088, 1086, 1089, 58, 32] @ fst qa @ [10] @
                      [1054, 1090, 1074, 1077, 1090, 58, 32] @
                      (case snd qa of None \<Rightarrow> ascii ''None'' | Some a \<Rightarrow> a) @ [10] @
                      replicate 80 45 @ [10, 10]);
        answers = answer_questions client summary questions
    in map fst answers = questions \<and>
       (\<forall>i<length questions.
          \<forall>t rest. client i (user_content (question_prompt summary (questions ! i))) =
              Inr (Some t # rest)
            \<longrightarrow> answers ! i = (questions ! i, Some (strip t))) \<and>
       save_answers fs answers filename filename = Some (concat (map written answers)) \<and>
       (\<forall>i<length questions.
          \<forall>t rest. client i (user_content (question_prompt summary (questions ! i))) =
              Inr (Some t # rest)
            \<longrightarrow> save_answers fs answers filename filename =
                 Some (concat (map written (take i answers)) @
                       written (questions ! i, Some (strip t)) @
                       concat (map written (drop (Suc i) answers)))))"
proof -
  let ?w = "\<lambda>qa. [1042, 1086, 1087, 1088, 1086, 1089, 58, 32] @ fst qa @ [10] @
                      [1054, 1090, 1074, 1077, 1090, 58, 32] @
                      (case snd qa of None \<Rightarrow> ascii ''None'' | Some a \<Rightarrow> a) @ [10] @
                      replicate 80 45 @ [10, 10]"
  let ?a = "answer_questions client summary questions"
  have w: "answer_block = ?w"
    by (rule ext) (simp add: answer_block_def)
  have c1: "map fst ?a = questions"
    by (simp add: answer_questions_def answer_from_questions)
  have c2: "?a ! i = (questions ! i, Some (strip t))"
    if "i < length questions"
      and "client i (user_content (question_prompt summary (questions ! i))) = Inr (Some t # rest)"
    for i t rest
    using that by (simp add: answer_questions_def answer_from_nth call_llm_def)
  have c3: "save_answers fs ?a filename filename = Some (concat (map ?w ?a))"
    by (simp add: save_answers_def w)
  have c4: "save_answers fs ?a filename filename =
      Some (concat (map ?w (take i ?a)) @ ?w (questions ! i, Some (strip t)) @
            concat (map ?w (drop (Suc i) ?a)))"
    if "i < length questions"
      and "client i (user_content (question_prompt summary (questions ! i))) = Inr (Some t # rest)"
    for i t rest
  proof -
    have "i < length ?a" using that(1) by (simp add: answer_questions_def answer_from_length)
    from concat_map_nth [OF this, of ?w] c2 [OF that] c3 show ?thesis by simp
  qed
  from c1 c2 c3 c4 show ?thesis unfolding Let_def by blast
qed

text \<open>
  The scenario of the specification: the call for question 3 of 5 raises; the
  questions come back in order, question 4 has its answer, and the file holds the five
  blocks in the order of the questions, with the answers of questions 1, 2, 4 and 5.
\<close>

theorem other_answers_survive_witness:
  "(let written = (\<lambda>q a. [1042, 1086, 1087, 1088, 1086, 1089, 58, 32] @ ascii q @ [10] @
                      [1054, 1090, 1074, 1077, 1090, 58, 32] @ ascii a @ [10] @
                      replicate 80 45 @ [10, 10])
    in third_call_fails 2 (user_content (question_prompt (ascii ''site text'') (ascii ''q3''))) =
         Inl (Other (ascii ''timeout'')) \<and>
       map fst (answer_questions third_call_fails (ascii ''site text'') five_questions) =
         five_questions \<and>
       answer_questions third_call_fails (ascii ''site text'') five_questions ! 3 =
         (ascii ''q4'', Some (ascii ''answer 3'')) \<and>
       save_answers Map.empty
           (answer_questions third_call_fails (ascii ''site text'') five_questions)
           (ascii ''answers.txt'') (ascii ''answers.txt'') =
         Some (written ''q1'' ''answer 0'' @ written ''q2'' ''answer 1'' @
               written ''q3'' ''None'' @ written ''q4'' ''answer 3'' @
               written ''q5'' ''answer 4''))"
proof -
  let ?s = "ascii ''site text''"
  let ?a = "answer_questions third_call_fails ?s five_questions"
  have f: "third_call_fails 2 (user_content (question_prompt ?s (ascii ''q3''))) =
      Inl (Other (ascii ''timeout''))"
    by (simp add: third_call_fails_def)
  have l: "(3::nat) < length five_questions"
    by (simp add: five_questions_def)
  have q: "five_questions ! 3 = ascii ''q4''"
    by (simp add: five_questions_def)
  have r: "third_call_fails 3 (user_content (question_prompt ?s (five_questions ! 3))) =
      Inr [Some (ascii '' answer 3'')]"
    by (simp add: third_call_fails_def str_nat.simps ascii_def)
  have st: "strip (ascii '' answer 3'') = ascii ''answer 3''"
    by code_simp
  have ans: "?a =
      [(ascii ''q1'', Some (ascii ''answer 0'')), (ascii ''q2'', Some (ascii ''answer 1'')),
       (ascii ''q3'', None), (ascii ''q4'', Some (ascii ''answer 3'')),
       (ascii ''q5'', Some (ascii ''answer 4''))]"
    by code_simp
  from other_answers_survive
         [of third_call_fails ?s five_questions Map.empty "ascii ''answers.txt''", unfolded Let_def]
  have c1: "map fst ?a = five_questions"
    and c2: "\<forall>i<length five_questions. \<forall>t rest.
      third_call_fails i (user_content (question_prompt ?s (five_questions ! i))) = Inr (Some t # rest)
        \<longrightarrow> ?a ! i = (five_questions ! i, Some (strip t))"
    and c3: "save_answers Map.empty ?a (ascii ''answers.txt'') (ascii ''answers.txt'') =
      Some (concat (map (\<lambda>qa. [1042, 1086, 1087, 1088, 1086, 1089, 58, 32] @ fst qa @ [10] @
                      [1054, 1090, 1074, 1077, 1090, 58, 32] @
                      (case snd qa of None \<Rightarrow> ascii ''None'' | Some a \<Rightarrow> a) @ [10] @
                      replicate 80 45 @ [10, 10]) ?a))"
    by blast+
  have wr: "save_answers Map.empty ?a (ascii ''answers.txt'') (ascii ''answers.txt'') =
      Some (concat (map (\<lambda>qa. [1042, 1086, 1087, 1088, 1086, 1089, 58, 32] @ fst qa @ [10] @
                      [1054, 1090, 1074, 1077, 1090, 58, 32] @
                      (case snd qa of None \<Rightarrow> ascii ''None'' | Some a \<Rightarrow> a) @ [10] @
                      replicate 80 45 @ [10, 10])
        [(ascii ''q1'', Some (ascii ''answer 0'')), (ascii ''q2'', Some (ascii ''answer 1'')),
         (ascii ''q3'', None), (ascii ''q4'', Some (ascii ''answer 3'')),
         (ascii ''q5'', Some (ascii ''answer 4''))]))"
    using c3 by (simp only: ans)
  from c1 c2 [rule_format, OF l r] f wr show ?thesis
    unfolding Let_def by (simp add: q st)
qed

lemma failed_answer_is_None:
  "answer_questions third_call_fails (ascii ''site text'') five_questions ! 2 = (ascii ''q3'', None)"
  by (simp add: answer_questions_def five_questions_def call_llm_def third_call_fails_def
      numeral_2_eq_2)

end
